theory Spec2Isabelle
  imports Main "HOL-Library.Finite_Map"
begin

section \<open>Data model\<close>

text \<open>
  The hook \<^verbatim>\<open>useCycleDetection\<close> works on an adjacency list: a JavaScript object whose
  own properties map a node identifier to the array of its successors. Node identifiers
  are strings; \<^verbatim>\<open>String(neighbor)\<close> is the identity on them. The own properties are
  modelled as a finite map. The object is a plain one (both callers build it with
  \<^verbatim>\<open>JSON.parse\<close>), so a property read \<^verbatim>\<open>graphData[k]\<close> gives the array when \<open>k\<close> is an own
  property, and is answered by \<^verbatim>\<open>Object.prototype\<close> otherwise.
\<close>

type_synonym node = string
type_synonym graph = "(node, node list) fmap"

text \<open>The successors a node has in the graph: none for a node without an entry.\<close>

definition neighbors_of :: "graph \<Rightarrow> node \<Rightarrow> node list" where
  "neighbors_of g c = (case fmlookup g c of None \<Rightarrow> [] | Some ns \<Rightarrow> ns)"

text \<open>
  What a property read gives: \<^verbatim>\<open>undefined\<close>, one of the arrays, a function held by
  \<^verbatim>\<open>Object.prototype\<close> (of which only its \<^verbatim>\<open>length\<close> matters, the number of its
  parameters), or \<^verbatim>\<open>Object.prototype\<close> itself, the value of the accessor \<^verbatim>\<open>__proto__\<close>.
\<close>

datatype jsval = Undefined | Array "node list" | Function nat | Prototype

text \<open>The members of \<^verbatim>\<open>Object.prototype\<close>, as ECMAScript defines them.\<close>

definition object_prototype :: "node \<Rightarrow> jsval" where
  "object_prototype k =
     (if k = ''constructor'' \<or> k = ''hasOwnProperty'' \<or> k = ''isPrototypeOf''
         \<or> k = ''propertyIsEnumerable'' \<or> k = ''__lookupGetter__'' \<or> k = ''__lookupSetter__''
      then Function 1
      else if k = ''toString'' \<or> k = ''toLocaleString'' \<or> k = ''valueOf'' then Function 0
      else if k = ''__defineGetter__'' \<or> k = ''__defineSetter__'' then Function 2
      else if k = ''__proto__'' then Prototype
      else Undefined)"

text \<open>\<^verbatim>\<open>graphData[k]\<close>: an own property shadows the member of the prototype.\<close>

definition read_property :: "graph \<Rightarrow> node \<Rightarrow> jsval" where
  "read_property g k = (case fmlookup g k of Some ns \<Rightarrow> Array ns | None \<Rightarrow> object_prototype k)"

text \<open>
  An array (an empty one too), a function and an object are truthy, \<^verbatim>\<open>undefined\<close> is not;
  \<^verbatim>\<open>value || []\<close> is the value unless it is falsy, and a new empty array then.
\<close>

definition truthy :: "jsval \<Rightarrow> bool" where
  "truthy v = (v \<noteq> Undefined)"

definition or_empty :: "jsval \<Rightarrow> jsval" where
  "or_empty v = (if truthy v then v else Array [])"

text \<open>
  \<^verbatim>\<open>for (const x of value)\<close>: the elements when the value is an array. A function and
  \<^verbatim>\<open>Object.prototype\<close> are not iterable, and the statement throws a \<^verbatim>\<open>TypeError\<close>.
\<close>

definition iterate :: "jsval \<Rightarrow> node list option" where
  "iterate v = (case v of Array ns \<Rightarrow> Some ns | Undefined \<Rightarrow> None | Function n \<Rightarrow> None
                | Prototype \<Rightarrow> None)"

text \<open>
  How a call ends: it returns a value, or a \<^verbatim>\<open>TypeError\<close> is thrown. Nothing in the hook
  catches it, so it ends every call on the way to the caller. The functions below give the
  state at that moment as well.
\<close>

datatype 'a completion = Return 'a | TypeError

text \<open>
  A JavaScript \<^verbatim>\<open>Set\<close> keeps its members in insertion order without duplicates:
  \<^verbatim>\<open>add\<close> appends a new member and leaves the set alone otherwise, \<^verbatim>\<open>delete\<close> removes
  the member, \<^verbatim>\<open>has\<close> tests membership.
\<close>

definition set_has :: "node list \<Rightarrow> node \<Rightarrow> bool" where
  "set_has S x = (x \<in> set S)"

definition set_add :: "node list \<Rightarrow> node \<Rightarrow> node list" where
  "set_add S x = (if x \<in> set S then S else S @ [x])"

definition set_delete :: "node list \<Rightarrow> node \<Rightarrow> node list" where
  "set_delete S x = removeAll x S"

text \<open>The traversal state shared by every operation: two sets and the path array.\<close>

record tstate =
  visited :: "node list"
  recursionStack :: "node list"
  pathStack :: "node list"

definition init_tstate :: tstate where
  "init_tstate = \<lparr>visited = [], recursionStack = [], pathStack = []\<rparr>"

text \<open>
  An edge object \<^verbatim>\<open>{ source, target }\<close>. The source of a back-edge reported by the
  instrumented detectors is read from the end of \<^verbatim>\<open>pathStack\<close> and is \<^verbatim>\<open>undefined\<close>
  (\<open>None\<close>) on an empty array, so the type of the source is a parameter.
\<close>

record 'a edge_of =
  source :: 'a
  target :: node

type_synonym edge = "node edge_of"
type_synonym back_edge = "node option edge_of"

section \<open>runDetection\<close>

text \<open>The inner \<^verbatim>\<open>dfs\<close> returns \<^verbatim>\<open>{ found: false }\<close> or \<^verbatim>\<open>{ found: true, culprit }\<close>.\<close>

datatype dfs_result = NotFound | Found node

text \<open>
  \<^verbatim>\<open>dfs\<close> of \<^verbatim>\<open>runDetection\<close>; \<open>dfs_loop\<close> is its \<^verbatim>\<open>for (const neighbor of neighbors)\<close>
  loop, which returns as soon as one neighbour reports a cycle.
\<close>

function dfs :: "graph \<Rightarrow> node \<Rightarrow> tstate \<Rightarrow> dfs_result completion \<times> tstate"
  and dfs_loop :: "graph \<Rightarrow> node list \<Rightarrow> tstate \<Rightarrow> dfs_result completion \<times> tstate"
where
  "dfs g c \<sigma> =
     (if set_has (recursionStack \<sigma>) c then (Return (Found c), \<sigma>)
      else if set_has (visited \<sigma>) c then (Return NotFound, \<sigma>)
      else
        (let \<sigma>1 = \<sigma>\<lparr>recursionStack := set_add (recursionStack \<sigma>) c,
                     pathStack := pathStack \<sigma> @ [c]\<rparr>
         in case iterate (or_empty (read_property g c)) of
              None \<Rightarrow> (TypeError, \<sigma>1)
            | Some neighbors \<Rightarrow>
                (case dfs_loop g neighbors \<sigma>1 of
                   (Return (Found k), \<sigma>') \<Rightarrow> (Return (Found k), \<sigma>')
                 | (Return NotFound, \<sigma>') \<Rightarrow>
                     (Return NotFound,
                      \<sigma>'\<lparr>recursionStack := set_delete (recursionStack \<sigma>') c,
                         pathStack := butlast (pathStack \<sigma>'),
                         visited := set_add (visited \<sigma>') c\<rparr>)
                 | (TypeError, \<sigma>') \<Rightarrow> (TypeError, \<sigma>'))))"
| "dfs_loop g [] \<sigma> = (Return NotFound, \<sigma>)"
| "dfs_loop g (n # ns) \<sigma> =
     (case dfs g n \<sigma> of
        (Return (Found k), \<sigma>') \<Rightarrow> (Return (Found k), \<sigma>')
      | (Return NotFound, \<sigma>') \<Rightarrow> dfs_loop g ns \<sigma>'
      | (TypeError, \<sigma>') \<Rightarrow> (TypeError, \<sigma>'))"
  by pat_completeness auto

text \<open>
  \<^verbatim>\<open>pathStack.indexOf(x)\<close> is the first position of \<open>x\<close>, or \<open>-1\<close>;
  \<^verbatim>\<open>pathStack.slice(k)\<close> copies the array from position \<open>k\<close>, a negative \<open>k\<close> counting
  from the end.
\<close>

definition indexOf :: "node list \<Rightarrow> node \<Rightarrow> int" where
  "indexOf xs x = (if x \<in> set xs then int (length (takeWhile (\<lambda>y. y \<noteq> x) xs)) else - 1)"

definition slice :: "node list \<Rightarrow> int \<Rightarrow> node list" where
  "slice xs k = (if k < 0 then drop (nat (int (length xs) + k)) xs else drop (nat k) xs)"

text \<open>
  Step records. A record holds copies of the three components of the traversal state,
  so it extends \<open>tstate\<close>; the fields after \<open>explanation\<close> are the ones a call may
  pass in \<^verbatim>\<open>extra\<close> and are absent (\<open>None\<close>) otherwise. The localized text
  \<^verbatim>\<open>explanationZh\<close> is a second rendering of \<open>explanation\<close> that nothing reads, and is
  not modelled. Strings are sequences of bytes, a character outside ASCII being its
  UTF-8 encoding.
\<close>

datatype action_type =
    START | ENTER_NODE | CHECK_IN_STACK | CYCLE_FOUND | SKIP_CYCLE | CHECK_VISITED
  | SKIP_VISITED | ADD_TO_STACK | EXPLORE_NEIGHBOR | BACKTRACK | MARK_SAFE | COMPLETE

record step = tstate +
  action :: action_type
  node :: node
  explanation :: string
  isCycle :: "bool option"
  cycleNode :: "node option"
  targetNeighbor :: "node option"
  skippedEdge :: "back_edge option"

text \<open>
  The object a detector returns; a property the source leaves out is \<open>None\<close>.
  \<open>plain_result b\<close> is \<^verbatim>\<open>{ found: b }\<close>.
\<close>

record result =
  found :: bool
  error :: "string option"
  path :: "node list option"
  loopPath :: "node list option"
  cycleEdge :: "back_edge option"
  handled :: "bool option"
  skippedEdges :: "back_edge list option"
  steps :: "step list option"

definition plain_result :: "bool \<Rightarrow> result" where
  "plain_result b = \<lparr>found = b, error = None, path = None, loopPath = None,
     cycleEdge = None, handled = None, skippedEdges = None, steps = None\<rparr>"

definition dquote :: string where
  "dquote = [CHR 0x22]"

definition not_found_message :: "node \<Rightarrow> string" where
  "not_found_message startNode = ''Node '' @ dquote @ startNode @ dquote @ '' not found in graph''"

text \<open>The guard \<^verbatim>\<open>!graphData[startNode]\<close> is passed by every truthy value.\<close>

definition runDetection :: "graph \<Rightarrow> node \<Rightarrow> result completion" where
  "runDetection graphData startNode =
     (if \<not> truthy (read_property graphData startNode)
      then Return ((plain_result False)\<lparr>error := Some (not_found_message startNode)\<rparr>)
      else
        (case dfs graphData startNode init_tstate of
           (Return (Found culprit), \<sigma>) \<Rightarrow>
             (let loopStartIndex = indexOf (pathStack \<sigma>) culprit;
                  actualLoop = slice (pathStack \<sigma>) loopStartIndex @ [culprit]
              in Return ((plain_result True)\<lparr>path := Some (pathStack \<sigma>),
                                               loopPath := Some actualLoop\<rparr>))
         | (Return NotFound, \<sigma>) \<Rightarrow> Return (plain_result False)
         | (TypeError, \<sigma>) \<Rightarrow> TypeError))"

section \<open>runDetectionWithSteps\<close>

record istate = tstate +
  stepsLog :: "step list"

definition init_istate :: istate where
  "init_istate = \<lparr>visited = [], recursionStack = [], pathStack = [], stepsLog = []\<rparr>"

text \<open>
  \<^verbatim>\<open>captureState\<close> appends a record with copies of the current sets and path; \<open>extra\<close>
  sets the additional fields of the record.
\<close>

definition captureState ::
  "action_type \<Rightarrow> node \<Rightarrow> string \<Rightarrow> (step \<Rightarrow> step) \<Rightarrow> 'a istate_scheme \<Rightarrow> 'a istate_scheme" where
  "captureState a n e extra \<sigma> =
     \<sigma>\<lparr>stepsLog := stepsLog \<sigma> @
        [extra \<lparr>visited = visited \<sigma>, recursionStack = recursionStack \<sigma>,
                 pathStack = pathStack \<sigma>, action = a, node = n, explanation = e,
                 isCycle = None, cycleNode = None, targetNeighbor = None,
                 skippedEdge = None\<rparr>]\<rparr>"

text \<open>\<^verbatim>\<open>Array.prototype.join\<close>\<close>

fun join :: "string \<Rightarrow> string list \<Rightarrow> string" where
  "join sep [] = []"
| "join sep [x] = x"
| "join sep (x # y # ys) = x @ sep @ join sep (y # ys)"

text \<open>The calls of \<^verbatim>\<open>captureState\<close>, one definition for each place in the source.\<close>

definition log_start :: "node \<Rightarrow> 'a istate_scheme \<Rightarrow> 'a istate_scheme" where
  "log_start startNode =
     captureState START startNode (''> init dfs_own --start='' @ dquote @ startNode @ dquote) id"

definition log_enter_node :: "node \<Rightarrow> 'a istate_scheme \<Rightarrow> 'a istate_scheme" where
  "log_enter_node c = captureState ENTER_NODE c (''> push node['' @ c @ '']'') id"

definition log_check_in_stack :: "node \<Rightarrow> 'a istate_scheme \<Rightarrow> 'a istate_scheme" where
  "log_check_in_stack c \<sigma> =
     captureState CHECK_IN_STACK c
       (''> check stack.contains('' @ c @ '') => ['' @ join '','' (recursionStack \<sigma>) @ '']'')
       id \<sigma>"

definition log_cycle_found :: "node \<Rightarrow> 'a istate_scheme \<Rightarrow> 'a istate_scheme" where
  "log_cycle_found c \<sigma> =
     captureState CYCLE_FOUND c
       (''[!] FATAL: cycle detected @ node['' @ c @ ''] | path: ''
          @ join ''->'' (pathStack \<sigma>) @ ''->'' @ c)
       (\<lambda>s. s\<lparr>isCycle := Some True, cycleNode := Some c\<rparr>) \<sigma>"

definition log_check_visited :: "node \<Rightarrow> 'a istate_scheme \<Rightarrow> 'a istate_scheme" where
  "log_check_visited c \<sigma> =
     captureState CHECK_VISITED c
       (''> check visited.has('' @ c @ '') => {'' @ join '','' (visited \<sigma>) @ ''}'')
       id \<sigma>"

definition log_skip_visited :: "node \<Rightarrow> 'a istate_scheme \<Rightarrow> 'a istate_scheme" where
  "log_skip_visited c =
     captureState SKIP_VISITED c (''> skip node['' @ c @ ''] -- already verified'') id"

definition log_add_to_stack :: "node \<Rightarrow> 'a istate_scheme \<Rightarrow> 'a istate_scheme" where
  "log_add_to_stack c \<sigma> =
     captureState ADD_TO_STACK c
       (''> stack.push('' @ c @ '') => ['' @ join '','' (recursionStack \<sigma>) @ '']'')
       id \<sigma>"

definition log_explore_neighbor :: "node \<Rightarrow> node \<Rightarrow> 'a istate_scheme \<Rightarrow> 'a istate_scheme" where
  "log_explore_neighbor c neighborStr =
     captureState EXPLORE_NEIGHBOR c
       (''> traverse edge['' @ c @ '']->['' @ neighborStr @ '']'')
       (\<lambda>s. s\<lparr>targetNeighbor := Some neighborStr\<rparr>)"

definition log_backtrack :: "node \<Rightarrow> 'a istate_scheme \<Rightarrow> 'a istate_scheme" where
  "log_backtrack c =
     captureState BACKTRACK c (''> stack.pop() -- backtrack from node['' @ c @ '']'') id"

definition log_mark_safe :: "node \<Rightarrow> 'a istate_scheme \<Rightarrow> 'a istate_scheme" where
  "log_mark_safe c =
     captureState MARK_SAFE c (''> visited.add('' @ c @ '') -- node verified safe'') id"

definition log_complete :: "node \<Rightarrow> 'a istate_scheme \<Rightarrow> 'a istate_scheme" where
  "log_complete startNode =
     captureState COMPLETE startNode
       ''> exit 0 -- no cycles detected, all paths verified'' id"

text \<open>\<^verbatim>\<open>pathStack[pathStack.length - 1]\<close>, which is \<^verbatim>\<open>undefined\<close> on the empty array.\<close>

definition last_elem :: "node list \<Rightarrow> node option" where
  "last_elem xs = (if xs = [] then None else Some (last xs))"

text \<open>
  The stop-at-first-cycle \<^verbatim>\<open>dfs\<close> (file \<^verbatim>\<open>patlytics-demo/src/hooks/useCycleDetection.js\<close>):
  it returns \<^verbatim>\<open>{ found: false }\<close> or \<^verbatim>\<open>{ found: true, culprit, cycleEdge }\<close>.
\<close>

datatype dfs_steps_result = NotFoundS | FoundS node back_edge

function dfs_steps :: "graph \<Rightarrow> node \<Rightarrow> istate \<Rightarrow> dfs_steps_result completion \<times> istate"
  and dfs_steps_loop ::
    "graph \<Rightarrow> node \<Rightarrow> node list \<Rightarrow> istate \<Rightarrow> dfs_steps_result completion \<times> istate"
where
  "dfs_steps g c \<sigma> =
     (let \<sigma>1 = log_check_in_stack c (log_enter_node c \<sigma>) in
      if set_has (recursionStack \<sigma>1) c then
        (let \<sigma>2 = log_cycle_found c \<sigma>1;
             sourceNode = last_elem (pathStack \<sigma>2)
         in (Return (FoundS c \<lparr>source = sourceNode, target = c\<rparr>), \<sigma>2))
      else
        (let \<sigma>2 = log_check_visited c \<sigma>1 in
         if set_has (visited \<sigma>2) c then (Return NotFoundS, log_skip_visited c \<sigma>2)
         else
           (let \<sigma>3 = log_add_to_stack c
                        (\<sigma>2\<lparr>recursionStack := set_add (recursionStack \<sigma>2) c,
                            pathStack := pathStack \<sigma>2 @ [c]\<rparr>)
            in case iterate (or_empty (read_property g c)) of
                 None \<Rightarrow> (TypeError, \<sigma>3)
               | Some neighbors \<Rightarrow>
                   (case dfs_steps_loop g c neighbors \<sigma>3 of
                      (Return (FoundS k e), \<sigma>') \<Rightarrow> (Return (FoundS k e), \<sigma>')
                    | (Return NotFoundS, \<sigma>') \<Rightarrow>
                        (let \<sigma>4 = log_backtrack c \<sigma>'
                         in (Return NotFoundS,
                             log_mark_safe c
                               (\<sigma>4\<lparr>recursionStack := set_delete (recursionStack \<sigma>4) c,
                                   pathStack := butlast (pathStack \<sigma>4),
                                   visited := set_add (visited \<sigma>4) c\<rparr>)))
                    | (TypeError, \<sigma>') \<Rightarrow> (TypeError, \<sigma>')))))"
| "dfs_steps_loop g c [] \<sigma> = (Return NotFoundS, \<sigma>)"
| "dfs_steps_loop g c (n # ns) \<sigma> =
     (case dfs_steps g n (log_explore_neighbor c n \<sigma>) of
        (Return (FoundS k e), \<sigma>') \<Rightarrow> (Return (FoundS k e), \<sigma>')
      | (Return NotFoundS, \<sigma>') \<Rightarrow> dfs_steps_loop g c ns \<sigma>'
      | (TypeError, \<sigma>') \<Rightarrow> (TypeError, \<sigma>'))"
  by pat_completeness auto

definition runDetectionWithSteps :: "graph \<Rightarrow> node \<Rightarrow> result completion" where
  "runDetectionWithSteps graphData startNode =
     (let \<sigma>0 = log_start startNode init_istate in
      if \<not> truthy (read_property graphData startNode)
      then Return ((plain_result False)\<lparr>error := Some (not_found_message startNode),
                                          steps := Some (stepsLog \<sigma>0)\<rparr>)
      else
        (case dfs_steps graphData startNode \<sigma>0 of
           (Return (FoundS culprit e), \<sigma>) \<Rightarrow>
             (let loopStartIndex = indexOf (pathStack \<sigma>) culprit;
                  actualLoop = slice (pathStack \<sigma>) loopStartIndex @ [culprit]
              in Return ((plain_result True)\<lparr>path := Some (pathStack \<sigma>),
                                               loopPath := Some actualLoop,
                                               cycleEdge := Some e,
                                               steps := Some (stepsLog \<sigma>)\<rparr>))
         | (Return NotFoundS, \<sigma>) \<Rightarrow>
             Return ((plain_result False)\<lparr>steps := Some (stepsLog (log_complete startNode \<sigma>))\<rparr>)
         | (TypeError, \<sigma>) \<Rightarrow> TypeError))"

section \<open>runDetectionWithSteps, skip-and-continue\<close>

text \<open>
  The second version of the hook (file \<^verbatim>\<open>part_000\<close>) keeps \<^verbatim>\<open>runDetection\<close> and
  \<^verbatim>\<open>removeCycles\<close> as they are and changes \<^verbatim>\<open>runDetectionWithSteps\<close>: a back-edge is
  pushed on the array \<^verbatim>\<open>skippedEdges\<close> and the loop over the neighbours ignores what
  \<^verbatim>\<open>dfs\<close> returns.
\<close>

record sstate = istate +
  skippedEdges_acc :: "back_edge list"

definition init_sstate :: sstate where
  "init_sstate = \<lparr>visited = [], recursionStack = [], pathStack = [], stepsLog = [],
     skippedEdges_acc = []\<rparr>"

text \<open>The check mark U+2713 of two messages, in UTF-8.\<close>

definition check_mark :: string where
  "check_mark = [CHR 0xE2, CHR 0x9C, CHR 0x93]"

text \<open>A template literal renders \<^verbatim>\<open>undefined\<close> by its name.\<close>

definition show_node :: "node option \<Rightarrow> string" where
  "show_node x = (case x of None \<Rightarrow> ''undefined'' | Some n \<Rightarrow> n)"

text \<open>A non-negative number in a template literal: its decimal digits.\<close>

definition digit_char :: "nat \<Rightarrow> char" where
  "digit_char d = char_of (48 + d)"

fun string_of_nat :: "nat \<Rightarrow> string" where
  "string_of_nat n =
     (if n < 10 then [digit_char n] else string_of_nat (n div 10) @ [digit_char (n mod 10)])"

definition log_cycle_detected :: "node \<Rightarrow> 'a istate_scheme \<Rightarrow> 'a istate_scheme" where
  "log_cycle_detected c \<sigma> =
     captureState CYCLE_FOUND c
       (''[!] CYCLE DETECTED @ node['' @ c @ ''] | path: ''
          @ join ''->'' (pathStack \<sigma>) @ ''->'' @ c)
       (\<lambda>s. s\<lparr>isCycle := Some True, cycleNode := Some c\<rparr>) \<sigma>"

definition log_skip_cycle ::
  "node option \<Rightarrow> node \<Rightarrow> back_edge \<Rightarrow> 'a istate_scheme \<Rightarrow> 'a istate_scheme" where
  "log_skip_cycle sourceNode c backEdge =
     captureState SKIP_CYCLE c
       (''['' @ check_mark @ ''] SKIP edge['' @ show_node sourceNode @ '']->['' @ c
          @ ''] -- avoiding infinite loop'')
       (\<lambda>s. s\<lparr>skippedEdge := Some backEdge\<rparr>)"

definition log_complete_skipped :: "node \<Rightarrow> nat \<Rightarrow> 'a istate_scheme \<Rightarrow> 'a istate_scheme" where
  "log_complete_skipped startNode n =
     captureState COMPLETE startNode
       (''['' @ check_mark @ ''] COMPLETE: traversal finished. '' @ string_of_nat n
          @ '' cycle(s) detected and skipped.'')
       id"

text \<open>\<^verbatim>\<open>dfs\<close> returns \<^verbatim>\<open>{ found: false }\<close> or \<^verbatim>\<open>{ found: true, cycleEdge, skipped: true }\<close>.\<close>

datatype dfs_skip_result = NotFoundK | FoundK back_edge

function dfs_skip :: "graph \<Rightarrow> node \<Rightarrow> sstate \<Rightarrow> dfs_skip_result completion \<times> sstate"
  and dfs_skip_loop :: "graph \<Rightarrow> node \<Rightarrow> node list \<Rightarrow> sstate \<Rightarrow> unit completion \<times> sstate"
where
  "dfs_skip g c \<sigma> =
     (let \<sigma>1 = log_check_in_stack c (log_enter_node c \<sigma>) in
      if set_has (recursionStack \<sigma>1) c then
        (let \<sigma>2 = log_cycle_detected c \<sigma>1;
             sourceNode = last_elem (pathStack \<sigma>2);
             backEdge = \<lparr>source = sourceNode, target = c\<rparr>;
             \<sigma>3 = \<sigma>2\<lparr>skippedEdges_acc := skippedEdges_acc \<sigma>2 @ [backEdge]\<rparr>
         in (Return (FoundK backEdge), log_skip_cycle sourceNode c backEdge \<sigma>3))
      else
        (let \<sigma>2 = log_check_visited c \<sigma>1 in
         if set_has (visited \<sigma>2) c then (Return NotFoundK, log_skip_visited c \<sigma>2)
         else
           (let \<sigma>3 = log_add_to_stack c
                        (\<sigma>2\<lparr>recursionStack := set_add (recursionStack \<sigma>2) c,
                            pathStack := pathStack \<sigma>2 @ [c]\<rparr>)
            in case iterate (or_empty (read_property g c)) of
                 None \<Rightarrow> (TypeError, \<sigma>3)
               | Some neighbors \<Rightarrow>
                   (case dfs_skip_loop g c neighbors \<sigma>3 of
                      (Return u, \<sigma>') \<Rightarrow>
                        (let \<sigma>4 = log_backtrack c \<sigma>'
                         in (Return NotFoundK,
                             log_mark_safe c
                               (\<sigma>4\<lparr>recursionStack := set_delete (recursionStack \<sigma>4) c,
                                   pathStack := butlast (pathStack \<sigma>4),
                                   visited := set_add (visited \<sigma>4) c\<rparr>)))
                    | (TypeError, \<sigma>') \<Rightarrow> (TypeError, \<sigma>')))))"
| "dfs_skip_loop g c [] \<sigma> = (Return (), \<sigma>)"
| "dfs_skip_loop g c (n # ns) \<sigma> =
     (case dfs_skip g n (log_explore_neighbor c n \<sigma>) of
        (Return r, \<sigma>') \<Rightarrow> dfs_skip_loop g c ns \<sigma>'
      | (TypeError, \<sigma>') \<Rightarrow> (TypeError, \<sigma>'))"
  by pat_completeness auto

definition runDetectionWithSteps_skip :: "graph \<Rightarrow> node \<Rightarrow> result completion" where
  "runDetectionWithSteps_skip graphData startNode =
     (let \<sigma>0 = log_start startNode init_sstate in
      if \<not> truthy (read_property graphData startNode)
      then Return ((plain_result False)\<lparr>error := Some (not_found_message startNode),
                                          steps := Some (stepsLog \<sigma>0)\<rparr>)
      else
        (case dfs_skip graphData startNode \<sigma>0 of
           (Return r, \<sigma>) \<Rightarrow>
             (if length (skippedEdges_acc \<sigma>) > 0
              then
                (let \<sigma>' = log_complete_skipped startNode (length (skippedEdges_acc \<sigma>)) \<sigma>
                 in Return ((plain_result True)\<lparr>handled := Some True,
                                                  skippedEdges := Some (skippedEdges_acc \<sigma>'),
                                                  steps := Some (stepsLog \<sigma>')\<rparr>))
              else Return ((plain_result False)\<lparr>steps := Some (stepsLog (log_complete startNode \<sigma>))\<rparr>))
         | (TypeError, \<sigma>) \<Rightarrow> TypeError))"

section \<open>removeCycles\<close>

text \<open>
  The state of \<^verbatim>\<open>removeCycles\<close>: the traversal state, the copy \<^verbatim>\<open>safeGraph\<close> that is
  edited in place, and the array \<^verbatim>\<open>removedEdges\<close>.
\<close>

record rstate = tstate +
  safeGraph_st :: graph
  removedEdges_st :: "edge list"

text \<open>
  \<^verbatim>\<open>String(neighbors[i])\<close>: a read outside the array gives \<^verbatim>\<open>undefined\<close>, and
  \<^verbatim>\<open>String\<close> makes the string \<^verbatim>\<open>"undefined"\<close> of it.
\<close>

definition string_at :: "node list \<Rightarrow> int \<Rightarrow> node" where
  "string_at xs i = (if 0 \<le> i \<and> i < int (length xs) then xs ! nat i else ''undefined'')"

text \<open>\<^verbatim>\<open>safeGraph[currentNode].splice(i, 1)\<close>, for \<open>0 \<le> i\<close>.\<close>

definition splice_at :: "graph \<Rightarrow> node \<Rightarrow> int \<Rightarrow> graph" where
  "splice_at g c i =
     (case fmlookup g c of
        None \<Rightarrow> g
      | Some ns \<Rightarrow> fmupd c (take (nat i) ns @ drop (Suc (nat i)) ns) g)"

text \<open>
  \<^verbatim>\<open>neighbors.length - 1\<close>, and \<^verbatim>\<open>String(neighbors[i])\<close>: an array and a function
  have a \<^verbatim>\<open>length\<close>; \<^verbatim>\<open>Object.prototype\<close> has none, the difference is \<^verbatim>\<open>NaN\<close> and
  \<^verbatim>\<open>i >= 0\<close> is false from the start, which \<open>-1\<close> stands for. A function has no element
  at any index, and \<^verbatim>\<open>String\<close> makes the string \<^verbatim>\<open>"undefined"\<close> of \<^verbatim>\<open>undefined\<close>.
\<close>

definition last_index :: "jsval \<Rightarrow> int" where
  "last_index v = (case v of Array ns \<Rightarrow> int (length ns) - 1 | Function n \<Rightarrow> int n - 1
                   | Prototype \<Rightarrow> - 1 | Undefined \<Rightarrow> - 1)"

definition element_string :: "jsval \<Rightarrow> int \<Rightarrow> node" where
  "element_string v i = (case v of Array ns \<Rightarrow> string_at ns i | Function n \<Rightarrow> ''undefined''
                         | Prototype \<Rightarrow> ''undefined'' | Undefined \<Rightarrow> ''undefined'')"

text \<open>
  \<^verbatim>\<open>dfs\<close> of \<^verbatim>\<open>removeCycles\<close>, and its loop \<^verbatim>\<open>for (let i = neighbors.length - 1; i >= 0; i--)\<close>.
  When \<^verbatim>\<open>currentNode\<close> is a key, \<^verbatim>\<open>neighbors\<close> is the array \<^verbatim>\<open>safeGraph[currentNode]\<close>
  itself, so the loop reads position \<open>i\<close> of the array as it is in the current state.
  \<^verbatim>\<open>safeGraph[currentNode].splice(i, 1)\<close> finds the method only on an array: on a
  function or on \<^verbatim>\<open>Object.prototype\<close> the call throws a \<^verbatim>\<open>TypeError\<close>.
\<close>

function rc_dfs :: "node \<Rightarrow> rstate \<Rightarrow> unit completion \<times> rstate"
  and rc_loop :: "node \<Rightarrow> int \<Rightarrow> rstate \<Rightarrow> unit completion \<times> rstate"
where
  "rc_dfs c \<sigma> =
     (let \<sigma>1 = \<sigma>\<lparr>recursionStack := set_add (recursionStack \<sigma>) c,
                  pathStack := pathStack \<sigma> @ [c]\<rparr>
      in case rc_loop c (last_index (or_empty (read_property (safeGraph_st \<sigma>1) c))) \<sigma>1 of
           (Return u, \<sigma>2) \<Rightarrow>
             (Return (),
              \<sigma>2\<lparr>recursionStack := set_delete (recursionStack \<sigma>2) c,
                 pathStack := butlast (pathStack \<sigma>2),
                 visited := set_add (visited \<sigma>2) c\<rparr>)
         | (TypeError, \<sigma>2) \<Rightarrow> (TypeError, \<sigma>2))"
| "rc_loop c i \<sigma> =
     (if i \<ge> 0 then
        (let neighbor = element_string (or_empty (read_property (safeGraph_st \<sigma>) c)) i in
         if set_has (recursionStack \<sigma>) neighbor then
           (case read_property (safeGraph_st \<sigma>) c of
              Array ns \<Rightarrow>
                rc_loop c (i - 1)
                  (\<sigma>\<lparr>safeGraph_st := splice_at (safeGraph_st \<sigma>) c i,
                     removedEdges_st := removedEdges_st \<sigma> @ [\<lparr>source = c, target = neighbor\<rparr>]\<rparr>)
            | Function n \<Rightarrow> (TypeError, \<sigma>)
            | Prototype \<Rightarrow> (TypeError, \<sigma>)
            | Undefined \<Rightarrow> (TypeError, \<sigma>))
         else if \<not> set_has (visited \<sigma>) neighbor then
           (case rc_dfs neighbor \<sigma> of
              (Return u, \<sigma>') \<Rightarrow> rc_loop c (i - 1) \<sigma>'
            | (TypeError, \<sigma>') \<Rightarrow> (TypeError, \<sigma>'))
         else rc_loop c (i - 1) \<sigma>)
      else (Return (), \<sigma>))"
  by pat_completeness auto

text \<open>The object \<^verbatim>\<open>{ safeGraph, removedEdges }\<close> that \<^verbatim>\<open>removeCycles\<close> returns.\<close>

record elimination =
  safeGraph :: graph
  removedEdges :: "edge list"

text \<open>
  \<^verbatim>\<open>JSON.parse(JSON.stringify(graphData))\<close> builds a copy of the object with the same
  keys and arrays of the same strings: as a value, the graph itself. The cells that the
  copy occupies are made explicit in the model on a store, further down.
\<close>

definition removeCycles :: "graph \<Rightarrow> node \<Rightarrow> elimination completion" where
  "removeCycles graphData startNode =
     (let \<sigma>0 = \<lparr>visited = [], recursionStack = [], pathStack = [],
                 safeGraph_st = graphData, removedEdges_st = []\<rparr>
      in case (if truthy (read_property (safeGraph_st \<sigma>0) startNode)
               then rc_dfs startNode \<sigma>0 else (Return (), \<sigma>0)) of
           (Return u, \<sigma>) \<Rightarrow> Return \<lparr>safeGraph = safeGraph_st \<sigma>, removedEdges = removedEdges_st \<sigma>\<rparr>
         | (TypeError, \<sigma>) \<Rightarrow> TypeError)"

section \<open>The traversals on own properties\<close>

text \<open>
  The four traversals once more, on a graph read through its own properties alone: a
  node without an entry has no successors and no read reaches \<^verbatim>\<open>Object.prototype\<close>, so
  that nothing is thrown. These are not the functions of the hook. They serve the
  proofs: a call of the hook that returns has run as the traversal here runs.
\<close>

function dfs_own :: "graph \<Rightarrow> node \<Rightarrow> tstate \<Rightarrow> dfs_result \<times> tstate"
  and dfs_loop_own :: "graph \<Rightarrow> node list \<Rightarrow> tstate \<Rightarrow> dfs_result \<times> tstate"
where
  "dfs_own g c \<sigma> =
     (if set_has (recursionStack \<sigma>) c then (Found c, \<sigma>)
      else if set_has (visited \<sigma>) c then (NotFound, \<sigma>)
      else
        (case dfs_loop_own g (neighbors_of g c)
                (\<sigma>\<lparr>recursionStack := set_add (recursionStack \<sigma>) c,
                   pathStack := pathStack \<sigma> @ [c]\<rparr>) of
           (Found k, \<sigma>') \<Rightarrow> (Found k, \<sigma>')
         | (NotFound, \<sigma>') \<Rightarrow>
             (NotFound, \<sigma>'\<lparr>recursionStack := set_delete (recursionStack \<sigma>') c,
                            pathStack := butlast (pathStack \<sigma>'),
                            visited := set_add (visited \<sigma>') c\<rparr>)))"
| "dfs_loop_own g [] \<sigma> = (NotFound, \<sigma>)"
| "dfs_loop_own g (n # ns) \<sigma> =
     (case dfs_own g n \<sigma> of
        (Found k, \<sigma>') \<Rightarrow> (Found k, \<sigma>')
      | (NotFound, \<sigma>') \<Rightarrow> dfs_loop_own g ns \<sigma>')"
  by pat_completeness auto

definition runDetection_own :: "graph \<Rightarrow> node \<Rightarrow> result" where
  "runDetection_own graphData startNode =
     (if fmlookup graphData startNode = None
      then (plain_result False)\<lparr>error := Some (not_found_message startNode)\<rparr>
      else
        (case dfs_own graphData startNode init_tstate of
           (Found culprit, \<sigma>) \<Rightarrow>
             (let loopStartIndex = indexOf (pathStack \<sigma>) culprit;
                  actualLoop = slice (pathStack \<sigma>) loopStartIndex @ [culprit]
              in (plain_result True)\<lparr>path := Some (pathStack \<sigma>), loopPath := Some actualLoop\<rparr>)
         | (NotFound, \<sigma>) \<Rightarrow> plain_result False))"

function dfs_steps_own :: "graph \<Rightarrow> node \<Rightarrow> istate \<Rightarrow> dfs_steps_result \<times> istate"
  and dfs_steps_loop_own :: "graph \<Rightarrow> node \<Rightarrow> node list \<Rightarrow> istate \<Rightarrow> dfs_steps_result \<times> istate"
where
  "dfs_steps_own g c \<sigma> =
     (let \<sigma>1 = log_check_in_stack c (log_enter_node c \<sigma>) in
      if set_has (recursionStack \<sigma>1) c then
        (let \<sigma>2 = log_cycle_found c \<sigma>1;
             sourceNode = last_elem (pathStack \<sigma>2)
         in (FoundS c \<lparr>source = sourceNode, target = c\<rparr>, \<sigma>2))
      else
        (let \<sigma>2 = log_check_visited c \<sigma>1 in
         if set_has (visited \<sigma>2) c then (NotFoundS, log_skip_visited c \<sigma>2)
         else
           (case dfs_steps_loop_own g c (neighbors_of g c)
                   (log_add_to_stack c
                      (\<sigma>2\<lparr>recursionStack := set_add (recursionStack \<sigma>2) c,
                          pathStack := pathStack \<sigma>2 @ [c]\<rparr>)) of
              (FoundS k e, \<sigma>') \<Rightarrow> (FoundS k e, \<sigma>')
            | (NotFoundS, \<sigma>') \<Rightarrow>
                (let \<sigma>3 = log_backtrack c \<sigma>'
                 in (NotFoundS,
                     log_mark_safe c
                       (\<sigma>3\<lparr>recursionStack := set_delete (recursionStack \<sigma>3) c,
                           pathStack := butlast (pathStack \<sigma>3),
                           visited := set_add (visited \<sigma>3) c\<rparr>))))))"
| "dfs_steps_loop_own g c [] \<sigma> = (NotFoundS, \<sigma>)"
| "dfs_steps_loop_own g c (n # ns) \<sigma> =
     (case dfs_steps_own g n (log_explore_neighbor c n \<sigma>) of
        (FoundS k e, \<sigma>') \<Rightarrow> (FoundS k e, \<sigma>')
      | (NotFoundS, \<sigma>') \<Rightarrow> dfs_steps_loop_own g c ns \<sigma>')"
  by pat_completeness auto

definition runDetectionWithSteps_own :: "graph \<Rightarrow> node \<Rightarrow> result" where
  "runDetectionWithSteps_own graphData startNode =
     (let \<sigma>0 = log_start startNode init_istate in
      if fmlookup graphData startNode = None
      then (plain_result False)\<lparr>error := Some (not_found_message startNode),
                                  steps := Some (stepsLog \<sigma>0)\<rparr>
      else
        (case dfs_steps_own graphData startNode \<sigma>0 of
           (FoundS culprit e, \<sigma>) \<Rightarrow>
             (let loopStartIndex = indexOf (pathStack \<sigma>) culprit;
                  actualLoop = slice (pathStack \<sigma>) loopStartIndex @ [culprit]
              in (plain_result True)\<lparr>path := Some (pathStack \<sigma>), loopPath := Some actualLoop,
                                       cycleEdge := Some e, steps := Some (stepsLog \<sigma>)\<rparr>)
         | (NotFoundS, \<sigma>) \<Rightarrow>
             (plain_result False)\<lparr>steps := Some (stepsLog (log_complete startNode \<sigma>))\<rparr>))"

function dfs_skip_own :: "graph \<Rightarrow> node \<Rightarrow> sstate \<Rightarrow> dfs_skip_result \<times> sstate"
  and dfs_skip_loop_own :: "graph \<Rightarrow> node \<Rightarrow> node list \<Rightarrow> sstate \<Rightarrow> sstate"
where
  "dfs_skip_own g c \<sigma> =
     (let \<sigma>1 = log_check_in_stack c (log_enter_node c \<sigma>) in
      if set_has (recursionStack \<sigma>1) c then
        (let \<sigma>2 = log_cycle_detected c \<sigma>1;
             sourceNode = last_elem (pathStack \<sigma>2);
             backEdge = \<lparr>source = sourceNode, target = c\<rparr>;
             \<sigma>3 = \<sigma>2\<lparr>skippedEdges_acc := skippedEdges_acc \<sigma>2 @ [backEdge]\<rparr>
         in (FoundK backEdge, log_skip_cycle sourceNode c backEdge \<sigma>3))
      else
        (let \<sigma>2 = log_check_visited c \<sigma>1 in
         if set_has (visited \<sigma>2) c then (NotFoundK, log_skip_visited c \<sigma>2)
         else
           (let \<sigma>3 = log_backtrack c
                  (dfs_skip_loop_own g c (neighbors_of g c)
                     (log_add_to_stack c
                        (\<sigma>2\<lparr>recursionStack := set_add (recursionStack \<sigma>2) c,
                            pathStack := pathStack \<sigma>2 @ [c]\<rparr>)))
            in (NotFoundK,
                log_mark_safe c
                  (\<sigma>3\<lparr>recursionStack := set_delete (recursionStack \<sigma>3) c,
                      pathStack := butlast (pathStack \<sigma>3),
                      visited := set_add (visited \<sigma>3) c\<rparr>)))))"
| "dfs_skip_loop_own g c [] \<sigma> = \<sigma>"
| "dfs_skip_loop_own g c (n # ns) \<sigma> =
     dfs_skip_loop_own g c ns (snd (dfs_skip_own g n (log_explore_neighbor c n \<sigma>)))"
  by pat_completeness auto

definition runDetectionWithSteps_skip_own :: "graph \<Rightarrow> node \<Rightarrow> result" where
  "runDetectionWithSteps_skip_own graphData startNode =
     (let \<sigma>0 = log_start startNode init_sstate in
      if fmlookup graphData startNode = None
      then (plain_result False)\<lparr>error := Some (not_found_message startNode),
                                  steps := Some (stepsLog \<sigma>0)\<rparr>
      else
        (let \<sigma> = snd (dfs_skip_own graphData startNode \<sigma>0) in
         if length (skippedEdges_acc \<sigma>) > 0
         then
           (let \<sigma>' = log_complete_skipped startNode (length (skippedEdges_acc \<sigma>)) \<sigma>
            in (plain_result True)\<lparr>handled := Some True,
                                     skippedEdges := Some (skippedEdges_acc \<sigma>'),
                                     steps := Some (stepsLog \<sigma>')\<rparr>)
         else (plain_result False)\<lparr>steps := Some (stepsLog (log_complete startNode \<sigma>))\<rparr>))"

function rc_dfs_own :: "node \<Rightarrow> rstate \<Rightarrow> rstate"
  and rc_loop_own :: "node \<Rightarrow> int \<Rightarrow> rstate \<Rightarrow> rstate"
where
  "rc_dfs_own c \<sigma> =
     (let \<sigma>1 = \<sigma>\<lparr>recursionStack := set_add (recursionStack \<sigma>) c,
                  pathStack := pathStack \<sigma> @ [c]\<rparr>;
          \<sigma>2 = rc_loop_own c (int (length (neighbors_of (safeGraph_st \<sigma>1) c)) - 1) \<sigma>1
      in \<sigma>2\<lparr>recursionStack := set_delete (recursionStack \<sigma>2) c,
            pathStack := butlast (pathStack \<sigma>2),
            visited := set_add (visited \<sigma>2) c\<rparr>)"
| "rc_loop_own c i \<sigma> =
     (if i \<ge> 0 then
        (let neighbor = string_at (neighbors_of (safeGraph_st \<sigma>) c) i in
         if set_has (recursionStack \<sigma>) neighbor then
           rc_loop_own c (i - 1)
             (\<sigma>\<lparr>safeGraph_st := splice_at (safeGraph_st \<sigma>) c i,
                removedEdges_st := removedEdges_st \<sigma> @ [\<lparr>source = c, target = neighbor\<rparr>]\<rparr>)
         else if \<not> set_has (visited \<sigma>) neighbor then rc_loop_own c (i - 1) (rc_dfs_own neighbor \<sigma>)
         else rc_loop_own c (i - 1) \<sigma>)
      else \<sigma>)"
  by pat_completeness auto

definition removeCycles_own :: "graph \<Rightarrow> node \<Rightarrow> elimination" where
  "removeCycles_own graphData startNode =
     (let \<sigma>0 = \<lparr>visited = [], recursionStack = [], pathStack = [],
                 safeGraph_st = graphData, removedEdges_st = []\<rparr>;
          \<sigma> = (if fmlookup (safeGraph_st \<sigma>0) startNode \<noteq> None then rc_dfs_own startNode \<sigma>0 else \<sigma>0)
      in \<lparr>safeGraph = safeGraph_st \<sigma>, removedEdges = removedEdges_st \<sigma>\<rparr>)"

section \<open>removeCycles on a store\<close>

text \<open>
  The objects and arrays that a call can share with its caller, in a store: a list of
  cells, the address of a cell being its position. A cell is an array of strings or an
  object whose properties, in insertion order, hold the addresses of arrays. A new cell
  is put at the end, so that no address in use changes its meaning.
\<close>

type_synonym addr = nat

datatype cell = Arr "node list" | Obj "(node \<times> addr) list"

type_synonym heap = "cell list"







definition is_object :: "heap \<Rightarrow> addr \<Rightarrow> bool" where
  "is_object h a = (a < length h \<and> (case h ! a of Arr xs \<Rightarrow> False | Obj kvs \<Rightarrow> True))"










section \<open>Graphs, walks and cycles\<close>

text \<open>
  The notions the properties are stated with. An edge leads from a node to each entry
  of its successor array; a walk is a sequence of nodes whose consecutive pairs are
  edges; a cycle is reachable from \<open>s\<close> when some node reachable from \<open>s\<close> lies on a
  closed walk with at least one edge.
\<close>

definition edges :: "graph \<Rightarrow> (node \<times> node) set" where
  "edges g = {(u, v). v \<in> set (neighbors_of g u)}"

fun walk :: "graph \<Rightarrow> node list \<Rightarrow> bool" where
  "walk g [] = True"
| "walk g [x] = True"
| "walk g (x # y # ys) = (y \<in> set (neighbors_of g x) \<and> walk g (y # ys))"

definition closed_walk :: "graph \<Rightarrow> node list \<Rightarrow> bool" where
  "closed_walk g p = (length p \<ge> 2 \<and> walk g p \<and> hd p = last p)"

definition cycle_reachable :: "graph \<Rightarrow> node \<Rightarrow> bool" where
  "cycle_reachable g s = (\<exists>v. (s, v) \<in> (edges g)\<^sup>* \<and> (v, v) \<in> (edges g)\<^sup>+)"

definition finished_order :: "graph \<Rightarrow> node list \<Rightarrow> bool" where
  "finished_order g vs = (\<forall>i < length vs. set (neighbors_of g (vs ! i)) \<subseteq> set (take i vs))"

text \<open>The first graph of the test cases of the application.\<close>

definition scenario1 :: graph where
  "scenario1 = fmap_of_list [(''1'', [''2'', ''7'']), (''2'', [''3'', ''4'']), (''3'', [''2'', ''1''])]"


text \<open>
  What a trace of the skip-and-continue detector tells: the back-edges met (the edges
  explored towards a node that is on the recursion stack at that moment), the edges
  recorded by the \<open>SKIP_CYCLE\<close> records, and the neighbours explored from a node.
\<close>

definition explored_back_edges :: "step list \<Rightarrow> back_edge list" where
  "explored_back_edges ss =
     concat (map (\<lambda>s. case targetNeighbor s of
                          None \<Rightarrow> []
                        | Some t \<Rightarrow>
                            if action s = EXPLORE_NEIGHBOR \<and> t \<in> set (recursionStack s)
                            then [\<lparr>source = Some (node s), target = t\<rparr>] else []) ss)"

definition recorded_skips :: "step list \<Rightarrow> back_edge list" where
  "recorded_skips ss = concat (map (\<lambda>s. case skippedEdge s of None \<Rightarrow> [] | Some e \<Rightarrow> [e]) ss)"

definition explored_from :: "node \<Rightarrow> step list \<Rightarrow> node list" where
  "explored_from v ss =
     concat (map (\<lambda>s. case targetNeighbor s of
                          None \<Rightarrow> []
                        | Some t \<Rightarrow> if action s = EXPLORE_NEIGHBOR \<and> node s = v then [t] else []) ss)"

text \<open>The graph \<open>g\<close> without the edges listed in \<open>es\<close>.\<close>

definition prune :: "edge list \<Rightarrow> graph \<Rightarrow> graph" where
  "prune es g = fmmap_keys (\<lambda>v. filter (\<lambda>t. \<lparr>source = v, target = t\<rparr> \<notin> set es)) g"



text \<open>
  Graphs that name a member of \<^verbatim>\<open>Object.prototype\<close>: a successor without an entry
  after, and before, the edge that closes a cycle; and a cycle that exists only through
  the function \<^verbatim>\<open>Object\<close>, whose \<^verbatim>\<open>length\<close> is 1.
\<close>

definition self_loop_after_constructor :: graph where
  "self_loop_after_constructor = fmap_of_list [(''1'', [''constructor'', ''1''])]"

definition self_loop_before_toString :: graph where
  "self_loop_before_toString = fmap_of_list [(''1'', [''1'', ''toString''])]"

definition cycle_through_constructor :: graph where
  "cycle_through_constructor = fmap_of_list [(''1'', [''constructor'']), (''undefined'', [''1''])]"

section \<open>Termination measures\<close>

text \<open>
  Every \<^verbatim>\<open>dfs\<close> enters a node at most once: the nodes on the stack or marked visited
  only grow, and a node is entered only when it is in neither set.
\<close>

definition seen :: "'a tstate_scheme \<Rightarrow> node set" where
  "seen \<sigma> = set (recursionStack \<sigma>) \<union> set (visited \<sigma>)"

definition unseen :: "graph \<Rightarrow> 'a tstate_scheme \<Rightarrow> nat" where
  "unseen g \<sigma> = card (fmdom' g - seen \<sigma>)"

definition dfs_measure ::
  "(graph \<times> node \<times> tstate) + (graph \<times> node list \<times> tstate) \<Rightarrow> nat \<times> nat \<times> nat" where
  "dfs_measure x = (case x of
      Inl (g, c, \<sigma>) \<Rightarrow> (unseen g \<sigma>, 1, 0)
    | Inr (g, ns, \<sigma>) \<Rightarrow> (unseen g \<sigma>, if ns = [] then 0 else 2, length ns))"

definition dfs_steps_measure ::
  "(graph \<times> node \<times> 'a istate_scheme) + (graph \<times> node \<times> node list \<times> 'a istate_scheme) \<Rightarrow> nat \<times> nat \<times> nat" where
  "dfs_steps_measure x = (case x of
      Inl (g, c, \<sigma>) \<Rightarrow> (unseen g \<sigma>, 1, 0)
    | Inr (g, c, ns, \<sigma>) \<Rightarrow> (unseen g \<sigma>, if ns = [] then 0 else 2, length ns))"

abbreviation lex3 :: "((nat \<times> nat \<times> nat) \<times> (nat \<times> nat \<times> nat)) set" where
  "lex3 \<equiv> less_than <*lex*> less_than <*lex*> less_than"

definition candidates :: "graph \<Rightarrow> node set" where
  "candidates g = insert ''undefined'' (fmdom' g \<union> (\<Union>ns \<in> fmran' g. set ns))"

definition rc_unseen :: "rstate \<Rightarrow> node set" where
  "rc_unseen \<sigma> = candidates (safeGraph_st \<sigma>) - seen \<sigma>"

definition rc_measure :: "(node \<times> rstate) + (node \<times> int \<times> rstate) \<Rightarrow> nat \<times> nat \<times> nat" where
  "rc_measure x = (case x of
      Inl (c, \<sigma>) \<Rightarrow> (card (rc_unseen \<sigma> - {c}), 1, 0)
    | Inr (c, i, \<sigma>) \<Rightarrow> (card (rc_unseen \<sigma>), 0, nat (i + 1)))"

text \<open>
  What the instrumented state and result show of the traversal once the trace is dropped.
\<close>

definition tstate_of :: "'a tstate_scheme \<Rightarrow> tstate" where
  "tstate_of \<sigma> = \<lparr>visited = visited \<sigma>, recursionStack = recursionStack \<sigma>, pathStack = pathStack \<sigma>\<rparr>"

definition erase_result :: "dfs_steps_result \<Rightarrow> dfs_result" where
  "erase_result r = (case r of NotFoundS \<Rightarrow> NotFound | FoundS k e \<Rightarrow> Found k)"

text \<open>
  The invariants of the traversal state, and of a trace together with the state that
  produced it.
\<close>

definition consistent :: "'a tstate_scheme \<Rightarrow> bool" where
  "consistent \<sigma> \<longleftrightarrow>
     set (visited \<sigma>) \<inter> set (recursionStack \<sigma>) = {} \<and> set (recursionStack \<sigma>) = set (pathStack \<sigma>)"

definition visited_grows :: "step list \<Rightarrow> bool" where
  "visited_grows ss \<longleftrightarrow>
     (\<forall>i j. i \<le> j \<and> j < length ss \<longrightarrow> set (visited (ss ! i)) \<subseteq> set (visited (ss ! j)))"

definition trace_inv :: "'a istate_scheme \<Rightarrow> bool" where
  "trace_inv \<sigma> \<longleftrightarrow>
     consistent \<sigma> \<and> (\<forall>s \<in> set (stepsLog \<sigma>). consistent s \<and> set (visited s) \<subseteq> set (visited \<sigma>))
     \<and> visited_grows (stepsLog \<sigma>)"

definition keeps_snapshot :: "(step \<Rightarrow> step) \<Rightarrow> bool" where
  "keeps_snapshot ex \<longleftrightarrow>
     (\<forall>s. visited (ex s) = visited s \<and> recursionStack (ex s) = recursionStack s
          \<and> pathStack (ex s) = pathStack s)"

text \<open>The four ways through the skip-and-continue \<^verbatim>\<open>dfs\<close>, and its invariants.\<close>

definition skip_enter :: "node \<Rightarrow> sstate \<Rightarrow> sstate" where
  "skip_enter c \<sigma> =
     log_add_to_stack c
       ((log_check_visited c (log_check_in_stack c (log_enter_node c \<sigma>)))
          \<lparr>recursionStack := set_add (recursionStack \<sigma>) c, pathStack := pathStack \<sigma> @ [c]\<rparr>)"

definition skip_leave :: "node \<Rightarrow> sstate \<Rightarrow> sstate" where
  "skip_leave c \<sigma> =
     log_mark_safe c
       ((log_backtrack c \<sigma>)\<lparr>recursionStack := set_delete (recursionStack \<sigma>) c,
                               pathStack := butlast (pathStack \<sigma>),
                               visited := set_add (visited \<sigma>) c\<rparr>)"

definition skip_back :: "node \<Rightarrow> sstate \<Rightarrow> sstate" where
  "skip_back c \<sigma> =
     log_skip_cycle (last_elem (pathStack \<sigma>)) c \<lparr>source = last_elem (pathStack \<sigma>), target = c\<rparr>
       ((log_cycle_detected c (log_check_in_stack c (log_enter_node c \<sigma>)))
          \<lparr>skippedEdges_acc := skippedEdges_acc \<sigma> @ [\<lparr>source = last_elem (pathStack \<sigma>), target = c\<rparr>]\<rparr>)"

definition skip_seen :: "node \<Rightarrow> sstate \<Rightarrow> sstate" where
  "skip_seen c \<sigma> = log_skip_visited c (log_check_visited c (log_check_in_stack c (log_enter_node c \<sigma>)))"

definition closed_upto :: "graph \<Rightarrow> 'a tstate_scheme \<Rightarrow> bool" where
  "closed_upto g \<sigma> \<longleftrightarrow>
     (\<forall>v \<in> set (visited \<sigma>). set (neighbors_of g v) \<subseteq> set (visited \<sigma>) \<union> set (recursionStack \<sigma>))"

definition explore_inv :: "graph \<Rightarrow> sstate \<Rightarrow> bool" where
  "explore_inv g \<sigma> \<longleftrightarrow>
     (\<forall>v. (v \<in> set (visited \<sigma>) \<longrightarrow> explored_from v (stepsLog \<sigma>) = neighbors_of g v)
        \<and> (v \<notin> set (visited \<sigma>) \<union> set (recursionStack \<sigma>) \<longrightarrow> explored_from v (stepsLog \<sigma>) = []))"

text \<open>
  The contract of the \<^verbatim>\<open>dfs\<close> of \<^verbatim>\<open>removeCycles\<close> and of its loop. For the edges \<open>new\<close>
  removed during a call: each is an edge of the graph at the start of the call, leaves a
  node entered during the call, and ends on a node that was on the recursion stack, so
  that it closes a cycle.
\<close>

definition edge_post :: "node \<Rightarrow> rstate \<Rightarrow> rstate \<Rightarrow> edge \<Rightarrow> bool" where
  "edge_post c \<sigma> \<sigma>' e \<longleftrightarrow>
       (source e = c \<or> source e \<in> set (visited \<sigma>') - set (visited \<sigma>))
     \<and> target e \<in> set (neighbors_of (safeGraph_st \<sigma>) (source e))
     \<and> (c, source e) \<in> (edges (safeGraph_st \<sigma>))\<^sup>*
     \<and> ((target e, source e) \<in> (edges (safeGraph_st \<sigma>))\<^sup>* \<or> target e \<in> set (recursionStack \<sigma>))
     \<and> target e \<in> set (recursionStack \<sigma>) \<union> set (visited \<sigma>')"

definition step_post :: "node \<Rightarrow> rstate \<Rightarrow> rstate \<Rightarrow> edge list \<Rightarrow> bool" where
  "step_post c \<sigma> \<sigma>' new \<longleftrightarrow>
     pathStack \<sigma>' = pathStack \<sigma> \<and> recursionStack \<sigma>' = recursionStack \<sigma>
     \<and> set (visited \<sigma>) \<subseteq> set (visited \<sigma>')
     \<and> set (visited \<sigma>') \<inter> set (recursionStack \<sigma>) = {}
     \<and> removedEdges_st \<sigma>' = removedEdges_st \<sigma> @ new
     \<and> finished_order (safeGraph_st \<sigma>') (visited \<sigma>')
     \<and> (\<forall>e \<in> set new. edge_post c \<sigma> \<sigma>' e)"

definition loop_pre :: "node \<Rightarrow> int \<Rightarrow> rstate \<Rightarrow> bool" where
  "loop_pre c i \<sigma> \<longleftrightarrow>
     c \<in> set (recursionStack \<sigma>) \<and> set (visited \<sigma>) \<inter> set (recursionStack \<sigma>) = {}
     \<and> finished_order (safeGraph_st \<sigma>) (visited \<sigma>)
     \<and> - 1 \<le> i \<and> i < int (length (neighbors_of (safeGraph_st \<sigma>) c))
     \<and> (\<forall>t \<in> set (drop (nat (i + 1)) (neighbors_of (safeGraph_st \<sigma>) c)). t \<notin> set (recursionStack \<sigma>))"

definition loop_post :: "node \<Rightarrow> int \<Rightarrow> rstate \<Rightarrow> rstate \<Rightarrow> edge list \<Rightarrow> bool" where
  "loop_post c i \<sigma> \<sigma>' new \<longleftrightarrow>
     step_post c \<sigma> \<sigma>' new
     \<and> neighbors_of (safeGraph_st \<sigma>') c
          = filter (\<lambda>t. t \<notin> set (recursionStack \<sigma>)) (neighbors_of (safeGraph_st \<sigma>) c)
     \<and> (\<forall>v. v \<noteq> c \<longrightarrow> fmlookup (safeGraph_st \<sigma>') v
          = map_option (filter (\<lambda>t. \<lparr>source = v, target = t\<rparr> \<notin> set new)) (fmlookup (safeGraph_st \<sigma>) v))
     \<and> fmdom' (safeGraph_st \<sigma>') = fmdom' (safeGraph_st \<sigma>)
     \<and> (\<forall>t. \<lparr>source = c, target = t\<rparr> \<in> set new \<longleftrightarrow>
            t \<in> set (take (nat (i + 1)) (neighbors_of (safeGraph_st \<sigma>) c)) \<and> t \<in> set (recursionStack \<sigma>))
     \<and> (\<forall>t \<in> set (take (nat (i + 1)) (neighbors_of (safeGraph_st \<sigma>) c)).
            t \<notin> set (recursionStack \<sigma>) \<longrightarrow> t \<in> set (visited \<sigma>'))"

definition dfs_post :: "node \<Rightarrow> rstate \<Rightarrow> rstate \<Rightarrow> edge list \<Rightarrow> bool" where
  "dfs_post c \<sigma> \<sigma>' new \<longleftrightarrow>
     step_post c \<sigma> \<sigma>' new \<and> c \<in> set (visited \<sigma>')
     \<and> safeGraph_st \<sigma>' = prune new (safeGraph_st \<sigma>)"

definition rc_init :: "graph \<Rightarrow> rstate" where
  "rc_init g = \<lparr>visited = [], recursionStack = [], pathStack = [],
                 safeGraph_st = g, removedEdges_st = []\<rparr>"





section \<open>Termination\<close>

declare string_of_nat.simps [simp del]

lemma unseen_mono: "seen \<sigma> \<subseteq> seen \<sigma>' \<Longrightarrow> unseen g \<sigma>' \<le> unseen g \<sigma>"
  unfolding unseen_def by (rule card_mono) auto

lemma unseen_push:
  assumes "c \<in> fmdom' g" "c \<notin> seen \<sigma>" "seen \<sigma>' = insert c (seen \<sigma>)"
  shows "unseen g \<sigma>' < unseen g \<sigma>"
  unfolding unseen_def using assms by (intro psubset_card_mono) auto

lemma neighbors_of_no_key: "c \<notin> fmdom' g \<Longrightarrow> neighbors_of g c = []"
  by (auto simp: neighbors_of_def fmdom'_notI split: option.splits)

lemma set_set_add [simp]: "set (set_add S x) = insert x (set S)"
  by (auto simp: set_add_def)

lemma set_set_delete [simp]: "set (set_delete S x) = set S - {x}"
  by (auto simp: set_delete_def)

lemma captureState_fields [simp]:
  "visited (captureState a n e ex \<sigma>) = visited \<sigma>"
  "recursionStack (captureState a n e ex \<sigma>) = recursionStack \<sigma>"
  "pathStack (captureState a n e ex \<sigma>) = pathStack \<sigma>"
  "stepsLog (captureState a n e ex \<sigma>) = stepsLog \<sigma> @
        [ex \<lparr>visited = visited \<sigma>, recursionStack = recursionStack \<sigma>,
                 pathStack = pathStack \<sigma>, action = a, node = n, explanation = e,
                 isCycle = None, cycleNode = None, targetNeighbor = None,
                 skippedEdge = None\<rparr>]"
  by (simp_all add: captureState_def)

lemmas log_defs = log_start_def log_enter_node_def log_check_in_stack_def log_cycle_found_def
  log_check_visited_def log_skip_visited_def log_add_to_stack_def log_explore_neighbor_def
  log_backtrack_def log_mark_safe_def log_complete_def log_cycle_detected_def
  log_skip_cycle_def log_complete_skipped_def

lemma seen_captureState [simp]: "seen (captureState a n e ex \<sigma>) = seen \<sigma>"
  by (simp add: seen_def)

lemma seen_log [simp]:
  "seen (log_enter_node c \<sigma>) = seen \<sigma>"
  "seen (log_check_in_stack c \<sigma>) = seen \<sigma>"
  "seen (log_cycle_found c \<sigma>) = seen \<sigma>"
  "seen (log_check_visited c \<sigma>) = seen \<sigma>"
  "seen (log_skip_visited c \<sigma>) = seen \<sigma>"
  "seen (log_add_to_stack c \<sigma>) = seen \<sigma>"
  "seen (log_explore_neighbor c n \<sigma>) = seen \<sigma>"
  "seen (log_backtrack c \<sigma>) = seen \<sigma>"
  "seen (log_mark_safe c \<sigma>) = seen \<sigma>"
  "seen (log_cycle_detected c \<sigma>) = seen \<sigma>"
  "seen (log_skip_cycle s c e \<sigma>) = seen \<sigma>"
  by (simp_all add: log_defs)

lemma log_fields [simp]:
  "visited (log_enter_node c \<sigma>) = visited \<sigma>"
  "recursionStack (log_enter_node c \<sigma>) = recursionStack \<sigma>"
  "pathStack (log_enter_node c \<sigma>) = pathStack \<sigma>"
  "visited (log_check_in_stack c \<sigma>) = visited \<sigma>"
  "recursionStack (log_check_in_stack c \<sigma>) = recursionStack \<sigma>"
  "pathStack (log_check_in_stack c \<sigma>) = pathStack \<sigma>"
  "visited (log_cycle_found c \<sigma>) = visited \<sigma>"
  "recursionStack (log_cycle_found c \<sigma>) = recursionStack \<sigma>"
  "pathStack (log_cycle_found c \<sigma>) = pathStack \<sigma>"
  "visited (log_check_visited c \<sigma>) = visited \<sigma>"
  "recursionStack (log_check_visited c \<sigma>) = recursionStack \<sigma>"
  "pathStack (log_check_visited c \<sigma>) = pathStack \<sigma>"
  "visited (log_skip_visited c \<sigma>) = visited \<sigma>"
  "recursionStack (log_skip_visited c \<sigma>) = recursionStack \<sigma>"
  "pathStack (log_skip_visited c \<sigma>) = pathStack \<sigma>"
  "visited (log_add_to_stack c \<sigma>) = visited \<sigma>"
  "recursionStack (log_add_to_stack c \<sigma>) = recursionStack \<sigma>"
  "pathStack (log_add_to_stack c \<sigma>) = pathStack \<sigma>"
  "visited (log_explore_neighbor c n \<sigma>) = visited \<sigma>"
  "recursionStack (log_explore_neighbor c n \<sigma>) = recursionStack \<sigma>"
  "pathStack (log_explore_neighbor c n \<sigma>) = pathStack \<sigma>"
  "visited (log_backtrack c \<sigma>) = visited \<sigma>"
  "recursionStack (log_backtrack c \<sigma>) = recursionStack \<sigma>"
  "pathStack (log_backtrack c \<sigma>) = pathStack \<sigma>"
  "visited (log_mark_safe c \<sigma>) = visited \<sigma>"
  "recursionStack (log_mark_safe c \<sigma>) = recursionStack \<sigma>"
  "pathStack (log_mark_safe c \<sigma>) = pathStack \<sigma>"
  "visited (log_cycle_detected c \<sigma>) = visited \<sigma>"
  "recursionStack (log_cycle_detected c \<sigma>) = recursionStack \<sigma>"
  "pathStack (log_cycle_detected c \<sigma>) = pathStack \<sigma>"
  "visited (log_skip_cycle s c e \<sigma>) = visited \<sigma>"
  "recursionStack (log_skip_cycle s c e \<sigma>) = recursionStack \<sigma>"
  "pathStack (log_skip_cycle s c e \<sigma>) = pathStack \<sigma>"
  "visited (log_start c \<sigma>) = visited \<sigma>"
  "recursionStack (log_start c \<sigma>) = recursionStack \<sigma>"
  "pathStack (log_start c \<sigma>) = pathStack \<sigma>"
  "visited (log_complete c \<sigma>) = visited \<sigma>"
  "recursionStack (log_complete c \<sigma>) = recursionStack \<sigma>"
  "pathStack (log_complete c \<sigma>) = pathStack \<sigma>"
  "visited (log_complete_skipped c k \<sigma>) = visited \<sigma>"
  "recursionStack (log_complete_skipped c k \<sigma>) = recursionStack \<sigma>"
  "pathStack (log_complete_skipped c k \<sigma>) = pathStack \<sigma>"
  by (simp_all add: log_defs)

subsection \<open>Termination of the plain dfs\<close>

lemma dfs_seen_dom_own:
  "dfs_own_dfs_loop_own_dom (Inl (g, c, \<sigma>)) \<Longrightarrow> seen \<sigma> \<subseteq> seen (snd (dfs_own g c \<sigma>))"
  "dfs_own_dfs_loop_own_dom (Inr (g, ns, \<sigma>)) \<Longrightarrow> seen \<sigma> \<subseteq> seen (snd (dfs_loop_own g ns \<sigma>))"
proof (induction g c \<sigma> and g ns \<sigma> rule: dfs_own_dfs_loop_own.pinduct)
  case (1 g c \<sigma>)
  then show ?case
    by (auto simp: dfs_own.psimps seen_def set_has_def split: prod.splits dfs_result.splits)
next
  case (2 g \<sigma>)
  then show ?case by (simp add: dfs_loop_own.psimps)
next
  case (3 g n ns \<sigma>)
  then show ?case
    by (fastforce simp: dfs_loop_own.psimps split: prod.splits dfs_result.splits)
qed

lemma push_decreases:
  fixes \<sigma> \<sigma>' :: "'a tstate_scheme"
  assumes "c \<notin> seen \<sigma>" and "seen \<sigma>' = insert c (seen \<sigma>)"
  shows "((unseen g \<sigma>', (if neighbors_of g c = [] then 0 else 2, length (neighbors_of g c))),
          (unseen g \<sigma>, (1::nat, 0::nat))) \<in> lex3"
proof (cases "c \<in> fmdom' g")
  case True
  with assms have "unseen g \<sigma>' < unseen g \<sigma>" by (intro unseen_push[of c]) auto
  then show ?thesis by simp
next
  case False
  have "unseen g \<sigma>' \<le> unseen g \<sigma>" using assms by (intro unseen_mono) auto
  with False show ?thesis by (auto simp: neighbors_of_no_key)
qed

lemma next_decreases:
  fixes \<sigma> \<sigma>' :: "'a tstate_scheme"
  assumes "seen \<sigma> \<subseteq> seen \<sigma>'"
  shows "((unseen g \<sigma>', (if ns = [] then 0 else 2, length ns)),
          (unseen g \<sigma>, (2::nat, Suc (length ns)))) \<in> lex3"
  using unseen_mono[OF assms, of g] by auto

termination dfs_own
proof (relation "inv_image lex3 dfs_measure")
  show "wf (inv_image lex3 dfs_measure)"
    by (intro wf_inv_image wf_lex_prod wf_less_than)
next
  fix g c and \<sigma> :: tstate
  assume "\<not> set_has (recursionStack \<sigma>) c" "\<not> set_has (visited \<sigma>) c"
  then show "(Inr (g, neighbors_of g c,
                \<sigma>\<lparr>recursionStack := set_add (recursionStack \<sigma>) c, pathStack := pathStack \<sigma> @ [c]\<rparr>),
              Inl (g, c, \<sigma>)) \<in> inv_image lex3 dfs_measure"
    using push_decreases[of c \<sigma> "\<sigma>\<lparr>recursionStack := set_add (recursionStack \<sigma>) c, pathStack := pathStack \<sigma> @ [c]\<rparr>" g]
    by (simp add: dfs_measure_def seen_def set_has_def)
next
  fix g n ns and \<sigma> :: tstate
  show "(Inl (g, n, \<sigma>), Inr (g, n # ns, \<sigma>)) \<in> inv_image lex3 dfs_measure"
    by (simp add: dfs_measure_def)
next
  fix g n ns and \<sigma> \<sigma>' :: tstate and r
  assume "(r, \<sigma>') = dfs_own g n \<sigma>" "dfs_own_dfs_loop_own_dom (Inl (g, n, \<sigma>))"
  then have "seen \<sigma> \<subseteq> seen \<sigma>'"
    using dfs_seen_dom_own(1)[of g n \<sigma>] by (metis snd_conv)
  then show "(Inr (g, ns, \<sigma>'), Inr (g, n # ns, \<sigma>)) \<in> inv_image lex3 dfs_measure"
    using next_decreases[of \<sigma> \<sigma>' g ns] by (simp add: dfs_measure_def)
qed

subsection \<open>Termination of the instrumented dfs\<close>

lemma dfs_steps_seen_dom_own:
  "dfs_steps_own_dfs_steps_loop_own_dom (Inl (g, c, \<sigma>)) \<Longrightarrow> seen \<sigma> \<subseteq> seen (snd (dfs_steps_own g c \<sigma>))"
  "dfs_steps_own_dfs_steps_loop_own_dom (Inr (g, c, ns, \<sigma>)) \<Longrightarrow> seen \<sigma> \<subseteq> seen (snd (dfs_steps_loop_own g c ns \<sigma>))"
proof (induction g c \<sigma> and g c ns \<sigma> rule: dfs_steps_own_dfs_steps_loop_own.pinduct)
  case (1 g c \<sigma>)
  note IH = 1(2)[OF refl _ refl]
  show ?case
  proof (cases "set_has (recursionStack \<sigma>) c \<or> set_has (visited \<sigma>) c")
    case True
    then show ?thesis using 1(1) by (auto simp: dfs_steps_own.psimps Let_def)
  next
    case False
    with IH show ?thesis using 1(1)
      by (auto simp: dfs_steps_own.psimps seen_def set_has_def Let_def
               split: prod.splits dfs_steps_result.splits)
  qed
next
  case (2 g c \<sigma>)
  then show ?case by (simp add: dfs_steps_loop_own.psimps)
next
  case (3 g c n ns \<sigma>)
  then show ?case
    by (fastforce simp: dfs_steps_loop_own.psimps split: prod.splits dfs_steps_result.splits)
qed

termination dfs_steps_own
proof (relation "inv_image lex3 dfs_steps_measure")
  show "wf (inv_image lex3 dfs_steps_measure)"
    by (intro wf_inv_image wf_lex_prod wf_less_than)
next
  fix g c and \<sigma> \<sigma>1 \<sigma>2 :: istate
  assume "\<sigma>1 = log_check_in_stack c (log_enter_node c \<sigma>)" "\<not> set_has (recursionStack \<sigma>1) c"
    "\<sigma>2 = log_check_visited c \<sigma>1" "\<not> set_has (visited \<sigma>2) c"
  then show "(Inr (g, c, neighbors_of g c,
                log_add_to_stack c (\<sigma>2\<lparr>recursionStack := set_add (recursionStack \<sigma>2) c, pathStack := pathStack \<sigma>2 @ [c]\<rparr>)),
              Inl (g, c, \<sigma>)) \<in> inv_image lex3 dfs_steps_measure"
    using push_decreases[of c \<sigma> "log_add_to_stack c (\<sigma>2\<lparr>recursionStack := set_add (recursionStack \<sigma>2) c, pathStack := pathStack \<sigma>2 @ [c]\<rparr>)" g]
    by (simp add: dfs_steps_measure_def seen_def set_has_def)
next
  fix g c n ns and \<sigma> :: istate
  show "(Inl (g, n, log_explore_neighbor c n \<sigma>), Inr (g, c, n # ns, \<sigma>)) \<in> inv_image lex3 dfs_steps_measure"
    by (simp add: dfs_steps_measure_def unseen_def)
next
  fix g c n ns and \<sigma> \<sigma>' :: istate and r
  assume "(r, \<sigma>') = dfs_steps_own g n (log_explore_neighbor c n \<sigma>)"
    "dfs_steps_own_dfs_steps_loop_own_dom (Inl (g, n, log_explore_neighbor c n \<sigma>))"
  then have "seen \<sigma> \<subseteq> seen \<sigma>'"
    using dfs_steps_seen_dom_own(1)[of g n "log_explore_neighbor c n \<sigma>"] by (metis snd_conv seen_log(7))
  then show "(Inr (g, c, ns, \<sigma>'), Inr (g, c, n # ns, \<sigma>)) \<in> inv_image lex3 dfs_steps_measure"
    using next_decreases[of \<sigma> \<sigma>' g ns] by (simp add: dfs_steps_measure_def)
qed

subsection \<open>Termination of the skip-and-continue dfs\<close>

lemma dfs_skip_seen_dom_own:
  "dfs_skip_own_dfs_skip_loop_own_dom (Inl (g, c, \<sigma>)) \<Longrightarrow> seen \<sigma> \<subseteq> seen (snd (dfs_skip_own g c \<sigma>))"
  "dfs_skip_own_dfs_skip_loop_own_dom (Inr (g, c, ns, \<sigma>)) \<Longrightarrow> seen \<sigma> \<subseteq> seen (dfs_skip_loop_own g c ns \<sigma>)"
proof (induction g c \<sigma> and g c ns \<sigma> rule: dfs_skip_own_dfs_skip_loop_own.pinduct)
  case (1 g c \<sigma>)
  note IH = 1(2)[OF refl _ refl]
  show ?case
  proof (cases "set_has (recursionStack \<sigma>) c \<or> set_has (visited \<sigma>) c")
    case True
    then show ?thesis using 1(1) by (auto simp: dfs_skip_own.psimps Let_def seen_def)
  next
    case False
    with IH show ?thesis using 1(1)
      by (auto simp: dfs_skip_own.psimps seen_def set_has_def Let_def)
  qed
next
  case (2 g c \<sigma>)
  then show ?case by (simp add: dfs_skip_loop_own.psimps)
next
  case (3 g c n ns \<sigma>)
  then show ?case
    by (fastforce simp: dfs_skip_loop_own.psimps)
qed

termination dfs_skip_own
proof (relation "inv_image lex3 dfs_steps_measure")
  show "wf (inv_image lex3 (dfs_steps_measure :: _ + (graph \<times> node \<times> node list \<times> sstate) \<Rightarrow> _))"
    by (intro wf_inv_image wf_lex_prod wf_less_than)
next
  fix g c and \<sigma> \<sigma>1 \<sigma>2 :: sstate
  assume "\<sigma>1 = log_check_in_stack c (log_enter_node c \<sigma>)" "\<not> set_has (recursionStack \<sigma>1) c"
    "\<sigma>2 = log_check_visited c \<sigma>1" "\<not> set_has (visited \<sigma>2) c"
  then show "(Inr (g, c, neighbors_of g c,
                log_add_to_stack c (\<sigma>2\<lparr>recursionStack := set_add (recursionStack \<sigma>2) c, pathStack := pathStack \<sigma>2 @ [c]\<rparr>)),
              Inl (g, c, \<sigma>)) \<in> inv_image lex3 dfs_steps_measure"
    using push_decreases[of c \<sigma> "log_add_to_stack c (\<sigma>2\<lparr>recursionStack := set_add (recursionStack \<sigma>2) c, pathStack := pathStack \<sigma>2 @ [c]\<rparr>)" g]
    by (simp add: dfs_steps_measure_def seen_def set_has_def)
next
  fix g c n ns and \<sigma> :: sstate
  show "(Inl (g, n, log_explore_neighbor c n \<sigma>), Inr (g, c, n # ns, \<sigma>)) \<in> inv_image lex3 dfs_steps_measure"
    by (simp add: dfs_steps_measure_def unseen_def)
next
  fix g c n ns and \<sigma> :: sstate
  assume "dfs_skip_own_dfs_skip_loop_own_dom (Inl (g, n, log_explore_neighbor c n \<sigma>))"
  then have "seen \<sigma> \<subseteq> seen (snd (dfs_skip_own g n (log_explore_neighbor c n \<sigma>)))"
    using dfs_skip_seen_dom_own(1)[of g n "log_explore_neighbor c n \<sigma>"] by simp
  then show "(Inr (g, c, ns, snd (dfs_skip_own g n (log_explore_neighbor c n \<sigma>))), Inr (g, c, n # ns, \<sigma>))
      \<in> inv_image lex3 dfs_steps_measure"
    using next_decreases[of \<sigma> _ g ns] by (simp add: dfs_steps_measure_def)
qed

subsection \<open>Termination of the dfs of removeCycles\<close>

lemma finite_candidates [simp]: "finite (candidates g)"
proof -
  have "finite (fmran' g)" by (simp add: fmran'_alt_def)
  then show ?thesis by (simp add: candidates_def)
qed

lemma finite_rc_unseen [simp]: "finite (rc_unseen \<sigma>)"
  by (simp add: rc_unseen_def)

lemma string_at_candidates: "string_at (neighbors_of g c) i \<in> candidates g"
proof (cases "0 \<le> i \<and> i < int (length (neighbors_of g c))")
  case False
  then have "string_at (neighbors_of g c) i = ''undefined''" by (auto simp: string_at_def)
  then show ?thesis by (simp add: candidates_def)
next
  case True
  then obtain ns where ns: "fmlookup g c = Some ns" "neighbors_of g c = ns"
    by (cases "fmlookup g c") (auto simp: neighbors_of_def)
  then have "ns \<in> fmran' g" by (auto intro: fmran'I)
  moreover have "string_at ns i \<in> set ns" using True ns by (auto simp: string_at_def intro!: nth_mem)
  ultimately show ?thesis using ns by (auto simp: candidates_def)
qed

lemma candidates_splice_at: "candidates (splice_at g c i) \<subseteq> candidates g"
proof (cases "fmlookup g c")
  case None
  then show ?thesis by (simp add: splice_at_def)
next
  case (Some ns)
  let ?ns' = "take (nat i) ns @ drop (Suc (nat i)) ns"
  have sub: "set ?ns' \<subseteq> set ns"
    by (auto dest: in_set_takeD in_set_dropD)
  have dom: "fmdom' (fmupd c ?ns' g) = fmdom' g"
    using Some by (auto simp: fmdom'I)
  have ran: "fmran' (fmupd c ?ns' g) \<subseteq> insert ?ns' (fmran' g)"
    by (auto simp: fmlookup_ran'_iff split: if_splits)
  have "ns \<in> fmran' g" using Some by (auto intro: fmran'I)
  with sub ran have "(\<Union>ms \<in> fmran' (fmupd c ?ns' g). set ms) \<subseteq> (\<Union>ms \<in> fmran' g. set ms)"
    by blast
  with dom Some show ?thesis
    by (auto simp: splice_at_def candidates_def)
qed

lemma rc_unseen_dom_own:
  "rc_dfs_own_rc_loop_own_dom (Inl (c, \<sigma>)) \<Longrightarrow> rc_unseen (rc_dfs_own c \<sigma>) \<subseteq> rc_unseen \<sigma> - {c}"
  "rc_dfs_own_rc_loop_own_dom (Inr (c, i, \<sigma>)) \<Longrightarrow> rc_unseen (rc_loop_own c i \<sigma>) \<subseteq> rc_unseen \<sigma>"
proof (induction c \<sigma> and c i \<sigma> rule: rc_dfs_own_rc_loop_own.pinduct)
  case (1 c \<sigma>)
  from 1(2)[OF refl] show ?case using 1(1)
    by (auto simp: rc_dfs_own.psimps Let_def rc_unseen_def seen_def)
next
  case (2 c i \<sigma>)
  show ?case
  proof (cases "i \<ge> 0")
    case False
    then show ?thesis using 2(1) by (simp add: rc_loop_own.psimps)
  next
    case True
    let ?n = "string_at (neighbors_of (safeGraph_st \<sigma>) c) i"
    consider (isback) "set_has (recursionStack \<sigma>) ?n"
      | (isfresh) "\<not> set_has (recursionStack \<sigma>) ?n" "\<not> set_has (visited \<sigma>) ?n"
      | (isold) "\<not> set_has (recursionStack \<sigma>) ?n" "set_has (visited \<sigma>) ?n" by blast
    then show ?thesis
    proof cases
      case isback
      have "rc_unseen (\<sigma>\<lparr>safeGraph_st := splice_at (safeGraph_st \<sigma>) c i,
                removedEdges_st := removedEdges_st \<sigma> @ [\<lparr>source = c, target = ?n\<rparr>]\<rparr>) \<subseteq> rc_unseen \<sigma>"
        using candidates_splice_at[of "safeGraph_st \<sigma>" c i] by (auto simp: rc_unseen_def seen_def)
      with 2(2)[OF True refl isback] show ?thesis using 2(1) True isback
        by (auto simp: rc_loop_own.psimps Let_def)
    next
      case isfresh
      from 2(3)[OF True refl isfresh] 2(4)[OF True refl isfresh] show ?thesis using 2(1) True isfresh
        by (simp add: rc_loop_own.psimps Let_def) blast
    next
      case isold
      with 2(5)[OF True refl] show ?thesis using 2(1) True
        by (simp add: rc_loop_own.psimps Let_def)
    qed
  qed
qed

termination rc_dfs_own
proof (relation "inv_image lex3 rc_measure")
  show "wf (inv_image lex3 rc_measure)"
    by (intro wf_inv_image wf_lex_prod wf_less_than)
next
  fix c and \<sigma> \<sigma>1 :: rstate
  assume "\<sigma>1 = \<sigma>\<lparr>recursionStack := set_add (recursionStack \<sigma>) c, pathStack := pathStack \<sigma> @ [c]\<rparr>"
  then have "rc_unseen \<sigma>1 = rc_unseen \<sigma> - {c}"
    by (auto simp: rc_unseen_def seen_def)
  then show "(Inr (c, int (length (neighbors_of (safeGraph_st \<sigma>1) c)) - 1, \<sigma>1), Inl (c, \<sigma>))
      \<in> inv_image lex3 rc_measure"
    by (simp add: rc_measure_def)
next
  fix c i and \<sigma> :: rstate and n
  assume "0 \<le> i" "n = string_at (neighbors_of (safeGraph_st \<sigma>) c) i" "set_has (recursionStack \<sigma>) n"
  have "rc_unseen (\<sigma>\<lparr>safeGraph_st := splice_at (safeGraph_st \<sigma>) c i,
                removedEdges_st := removedEdges_st \<sigma> @ [\<lparr>source = c, target = n\<rparr>]\<rparr>) \<subseteq> rc_unseen \<sigma>"
    using candidates_splice_at[of "safeGraph_st \<sigma>" c i] by (auto simp: rc_unseen_def seen_def)
  then have "card (rc_unseen (\<sigma>\<lparr>safeGraph_st := splice_at (safeGraph_st \<sigma>) c i,
                removedEdges_st := removedEdges_st \<sigma> @ [\<lparr>source = c, target = n\<rparr>]\<rparr>)) \<le> card (rc_unseen \<sigma>)"
    by (intro card_mono) auto
  with \<open>0 \<le> i\<close> show "(Inr (c, i - 1, \<sigma>\<lparr>safeGraph_st := splice_at (safeGraph_st \<sigma>) c i,
                removedEdges_st := removedEdges_st \<sigma> @ [\<lparr>source = c, target = n\<rparr>]\<rparr>), Inr (c, i, \<sigma>))
      \<in> inv_image lex3 rc_measure"
    by (auto simp: rc_measure_def)
next
  fix c i and \<sigma> :: rstate and n
  assume a: "0 \<le> i" "n = string_at (neighbors_of (safeGraph_st \<sigma>) c) i"
    "\<not> set_has (recursionStack \<sigma>) n" "\<not> set_has (visited \<sigma>) n"
  then have "n \<in> rc_unseen \<sigma>"
    using string_at_candidates[of "safeGraph_st \<sigma>" c i] by (simp add: rc_unseen_def seen_def set_has_def)
  then have "card (rc_unseen \<sigma> - {n}) < card (rc_unseen \<sigma>)"
    by (intro psubset_card_mono) auto
  then show "(Inl (n, \<sigma>), Inr (c, i, \<sigma>)) \<in> inv_image lex3 rc_measure"
    by (simp add: rc_measure_def)
next
  fix c and i :: int and \<sigma> :: rstate and n
  assume a: "0 \<le> i" "rc_dfs_own_rc_loop_own_dom (Inl (n, \<sigma>))"
  from rc_unseen_dom_own(1)[OF a(2)] have "card (rc_unseen (rc_dfs_own n \<sigma>)) \<le> card (rc_unseen \<sigma>)"
    by (intro card_mono) auto
  with a(1) show "(Inr (c, i - 1, rc_dfs_own n \<sigma>), Inr (c, i, \<sigma>)) \<in> inv_image lex3 rc_measure"
    by (auto simp: rc_measure_def)
next
  fix c and i :: int and \<sigma> :: rstate
  assume "0 \<le> i"
  then show "(Inr (c, i - 1, \<sigma>), Inr (c, i, \<sigma>)) \<in> inv_image lex3 rc_measure"
    by (auto simp: rc_measure_def)
qed


subsection \<open>Termination of the bounded dfs on the store\<close>


section \<open>Termination of the functions of the hook\<close>

lemma object_prototype_not_array [simp]: "object_prototype k \<noteq> Array ns"
  by (simp add: object_prototype_def)

lemma element_string_own:
  "element_string (or_empty (read_property g c)) i = string_at (neighbors_of g c) i"
proof (cases "fmlookup g c")
  case None
  then show ?thesis
    by (cases "object_prototype c")
       (auto simp: element_string_def or_empty_def truthy_def read_property_def neighbors_of_def
                   string_at_def)
next
  case (Some ns)
  then show ?thesis
    by (simp add: element_string_def or_empty_def truthy_def read_property_def neighbors_of_def)
qed

lemma iterate_own: "iterate (or_empty (read_property g c)) = Some ns \<Longrightarrow> ns = neighbors_of g c"
  by (auto simp: iterate_def or_empty_def truthy_def read_property_def neighbors_of_def object_prototype_def
           split: option.splits jsval.splits if_splits)

lemma dfs_seen_dom:
  "dfs_dfs_loop_dom (Inl (g, c, \<sigma>)) \<Longrightarrow> seen \<sigma> \<subseteq> seen (snd (dfs g c \<sigma>))"
  "dfs_dfs_loop_dom (Inr (g, ns, \<sigma>)) \<Longrightarrow> seen \<sigma> \<subseteq> seen (snd (dfs_loop g ns \<sigma>))"
proof (induction g c \<sigma> and g ns \<sigma> rule: dfs_dfs_loop.pinduct)
  case (1 g c \<sigma>)
  show ?case
  proof (cases "set_has (recursionStack \<sigma>) c \<or> set_has (visited \<sigma>) c")
    case True
    then show ?thesis using 1(1) by (auto simp: dfs.psimps)
  next
    case False
    show ?thesis
    proof (cases "iterate (or_empty (read_property g c))")
      case None
      with False show ?thesis using 1(1)
        by (auto simp: dfs.psimps seen_def set_has_def Let_def)
    next
      case (Some neighbors)
      from 1(2)[OF _ _ refl Some] False Some show ?thesis using 1(1)
        by (auto simp: dfs.psimps seen_def set_has_def Let_def
                 split: prod.splits dfs_result.splits completion.splits)
    qed
  qed
next
  case (2 g \<sigma>)
  then show ?case by (simp add: dfs_loop.psimps)
next
  case (3 g n ns \<sigma>)
  then show ?case
    by (fastforce simp: dfs_loop.psimps split: prod.splits dfs_result.splits completion.splits)
qed

termination dfs
proof (relation "inv_image lex3 dfs_measure")
  show "wf (inv_image lex3 dfs_measure)"
    by (intro wf_inv_image wf_lex_prod wf_less_than)
next
  fix g c and \<sigma> \<sigma>1 :: tstate and neighbors
  assume a: "\<not> set_has (recursionStack \<sigma>) c" "\<not> set_has (visited \<sigma>) c"
    "\<sigma>1 = \<sigma>\<lparr>recursionStack := set_add (recursionStack \<sigma>) c, pathStack := pathStack \<sigma> @ [c]\<rparr>"
    "iterate (or_empty (read_property g c)) = Some neighbors"
  from iterate_own[OF a(4)] a(1,2,3)
  show "(Inr (g, neighbors, \<sigma>1), Inl (g, c, \<sigma>)) \<in> inv_image lex3 dfs_measure"
    using push_decreases[of c \<sigma> \<sigma>1 g]
    by (simp add: dfs_measure_def seen_def set_has_def)
next
  fix g n ns and \<sigma> :: tstate
  show "(Inl (g, n, \<sigma>), Inr (g, n # ns, \<sigma>)) \<in> inv_image lex3 dfs_measure"
    by (simp add: dfs_measure_def)
next
  fix g n ns and \<sigma> \<sigma>' :: tstate and r x
  assume "(r, \<sigma>') = dfs g n \<sigma>" "dfs_dfs_loop_dom (Inl (g, n, \<sigma>))"
  then have "seen \<sigma> \<subseteq> seen \<sigma>'"
    using dfs_seen_dom(1)[of g n \<sigma>] by (metis snd_conv)
  then show "(Inr (g, ns, \<sigma>'), Inr (g, n # ns, \<sigma>)) \<in> inv_image lex3 dfs_measure"
    using next_decreases[of \<sigma> \<sigma>' g ns] by (simp add: dfs_measure_def)
qed

lemma dfs_steps_seen_dom:
  "dfs_steps_dfs_steps_loop_dom (Inl (g, c, \<sigma>)) \<Longrightarrow> seen \<sigma> \<subseteq> seen (snd (dfs_steps g c \<sigma>))"
  "dfs_steps_dfs_steps_loop_dom (Inr (g, c, ns, \<sigma>)) \<Longrightarrow> seen \<sigma> \<subseteq> seen (snd (dfs_steps_loop g c ns \<sigma>))"
proof (induction g c \<sigma> and g c ns \<sigma> rule: dfs_steps_dfs_steps_loop.pinduct)
  case (1 g c \<sigma>)
  show ?case
  proof (cases "set_has (recursionStack \<sigma>) c \<or> set_has (visited \<sigma>) c")
    case True
    then show ?thesis using 1(1) by (auto simp: dfs_steps.psimps Let_def)
  next
    case False
    show ?thesis
    proof (cases "iterate (or_empty (read_property g c))")
      case None
      with False show ?thesis using 1(1)
        by (auto simp: dfs_steps.psimps seen_def set_has_def Let_def)
    next
      case (Some neighbors)
      from 1(2)[OF refl _ refl _ refl Some] False Some show ?thesis using 1(1)
        by (auto simp: dfs_steps.psimps seen_def set_has_def Let_def
                 split: prod.splits dfs_steps_result.splits completion.splits)
    qed
  qed
next
  case (2 g c \<sigma>)
  then show ?case by (simp add: dfs_steps_loop.psimps)
next
  case (3 g c n ns \<sigma>)
  then show ?case
    by (fastforce simp: dfs_steps_loop.psimps split: prod.splits dfs_steps_result.splits completion.splits)
qed

termination dfs_steps
proof (relation "inv_image lex3 dfs_steps_measure")
  show "wf (inv_image lex3 dfs_steps_measure)"
    by (intro wf_inv_image wf_lex_prod wf_less_than)
next
  fix g c and \<sigma> \<sigma>1 \<sigma>2 \<sigma>3 :: istate and neighbors
  assume a: "\<sigma>1 = log_check_in_stack c (log_enter_node c \<sigma>)" "\<not> set_has (recursionStack \<sigma>1) c"
    "\<sigma>2 = log_check_visited c \<sigma>1" "\<not> set_has (visited \<sigma>2) c"
    "\<sigma>3 = log_add_to_stack c (\<sigma>2\<lparr>recursionStack := set_add (recursionStack \<sigma>2) c, pathStack := pathStack \<sigma>2 @ [c]\<rparr>)"
    "iterate (or_empty (read_property g c)) = Some neighbors"
  from iterate_own[OF a(6)] a(1-5)
  show "(Inr (g, c, neighbors, \<sigma>3), Inl (g, c, \<sigma>)) \<in> inv_image lex3 dfs_steps_measure"
    using push_decreases[of c \<sigma> \<sigma>3 g]
    by (simp add: dfs_steps_measure_def seen_def set_has_def)
next
  fix g c n ns and \<sigma> :: istate
  show "(Inl (g, n, log_explore_neighbor c n \<sigma>), Inr (g, c, n # ns, \<sigma>)) \<in> inv_image lex3 dfs_steps_measure"
    by (simp add: dfs_steps_measure_def unseen_def)
next
  fix g c n ns and \<sigma> \<sigma>' :: istate and r
  assume "(r, \<sigma>') = dfs_steps g n (log_explore_neighbor c n \<sigma>)"
    "dfs_steps_dfs_steps_loop_dom (Inl (g, n, log_explore_neighbor c n \<sigma>))"
  then have "seen \<sigma> \<subseteq> seen \<sigma>'"
    using dfs_steps_seen_dom(1)[of g n "log_explore_neighbor c n \<sigma>"] by (metis snd_conv seen_log(7))
  then show "(Inr (g, c, ns, \<sigma>'), Inr (g, c, n # ns, \<sigma>)) \<in> inv_image lex3 dfs_steps_measure"
    using next_decreases[of \<sigma> \<sigma>' g ns] by (simp add: dfs_steps_measure_def)
qed

lemma dfs_skip_seen_dom:
  "dfs_skip_dfs_skip_loop_dom (Inl (g, c, \<sigma>)) \<Longrightarrow> seen \<sigma> \<subseteq> seen (snd (dfs_skip g c \<sigma>))"
  "dfs_skip_dfs_skip_loop_dom (Inr (g, c, ns, \<sigma>)) \<Longrightarrow> seen \<sigma> \<subseteq> seen (snd (dfs_skip_loop g c ns \<sigma>))"
proof (induction g c \<sigma> and g c ns \<sigma> rule: dfs_skip_dfs_skip_loop.pinduct)
  case (1 g c \<sigma>)
  show ?case
  proof (cases "set_has (recursionStack \<sigma>) c \<or> set_has (visited \<sigma>) c")
    case True
    then show ?thesis using 1(1) by (auto simp: dfs_skip.psimps Let_def seen_def)
  next
    case False
    show ?thesis
    proof (cases "iterate (or_empty (read_property g c))")
      case None
      with False show ?thesis using 1(1)
        by (auto simp: dfs_skip.psimps seen_def set_has_def Let_def)
    next
      case (Some neighbors)
      from 1(2)[OF refl _ refl _ refl Some] False Some show ?thesis using 1(1)
        by (auto simp: dfs_skip.psimps seen_def set_has_def Let_def
                 split: prod.splits completion.splits)
    qed
  qed
next
  case (2 g c \<sigma>)
  then show ?case by (simp add: dfs_skip_loop.psimps)
next
  case (3 g c n ns \<sigma>)
  then show ?case
    by (fastforce simp: dfs_skip_loop.psimps split: prod.splits completion.splits)
qed

termination dfs_skip
proof (relation "inv_image lex3 dfs_steps_measure")
  show "wf (inv_image lex3 (dfs_steps_measure :: _ + (graph \<times> node \<times> node list \<times> sstate) \<Rightarrow> _))"
    by (intro wf_inv_image wf_lex_prod wf_less_than)
next
  fix g c and \<sigma> \<sigma>1 \<sigma>2 \<sigma>3 :: sstate and neighbors
  assume a: "\<sigma>1 = log_check_in_stack c (log_enter_node c \<sigma>)" "\<not> set_has (recursionStack \<sigma>1) c"
    "\<sigma>2 = log_check_visited c \<sigma>1" "\<not> set_has (visited \<sigma>2) c"
    "\<sigma>3 = log_add_to_stack c (\<sigma>2\<lparr>recursionStack := set_add (recursionStack \<sigma>2) c, pathStack := pathStack \<sigma>2 @ [c]\<rparr>)"
    "iterate (or_empty (read_property g c)) = Some neighbors"
  from iterate_own[OF a(6)] a(1-5)
  show "(Inr (g, c, neighbors, \<sigma>3), Inl (g, c, \<sigma>)) \<in> inv_image lex3 dfs_steps_measure"
    using push_decreases[of c \<sigma> \<sigma>3 g]
    by (simp add: dfs_steps_measure_def seen_def set_has_def)
next
  fix g c n ns and \<sigma> :: sstate
  show "(Inl (g, n, log_explore_neighbor c n \<sigma>), Inr (g, c, n # ns, \<sigma>)) \<in> inv_image lex3 dfs_steps_measure"
    by (simp add: dfs_steps_measure_def unseen_def)
next
  fix g c n ns and \<sigma> \<sigma>' :: sstate and r
  assume "(r, \<sigma>') = dfs_skip g n (log_explore_neighbor c n \<sigma>)"
    "dfs_skip_dfs_skip_loop_dom (Inl (g, n, log_explore_neighbor c n \<sigma>))"
  then have "seen \<sigma> \<subseteq> seen \<sigma>'"
    using dfs_skip_seen_dom(1)[of g n "log_explore_neighbor c n \<sigma>"] by (metis snd_conv seen_log(7))
  then show "(Inr (g, c, ns, \<sigma>'), Inr (g, c, n # ns, \<sigma>)) \<in> inv_image lex3 dfs_steps_measure"
    using next_decreases[of \<sigma> \<sigma>' g ns] by (simp add: dfs_steps_measure_def)
qed

lemma rc_unseen_dom:
  "rc_dfs_rc_loop_dom (Inl (c, \<sigma>)) \<Longrightarrow> rc_unseen (snd (rc_dfs c \<sigma>)) \<subseteq> rc_unseen \<sigma> - {c}"
  "rc_dfs_rc_loop_dom (Inr (c, i, \<sigma>)) \<Longrightarrow> rc_unseen (snd (rc_loop c i \<sigma>)) \<subseteq> rc_unseen \<sigma>"
proof (induction c \<sigma> and c i \<sigma> rule: rc_dfs_rc_loop.pinduct)
  case (1 c \<sigma>)
  from 1(2)[OF refl] show ?case using 1(1)
    by (auto simp: rc_dfs.psimps Let_def rc_unseen_def seen_def split: prod.splits completion.splits)
next
  case (2 c i \<sigma>)
  show ?case
  proof (cases "i \<ge> 0")
    case False
    then show ?thesis using 2(1) by (simp add: rc_loop.psimps)
  next
    case True
    let ?n = "element_string (or_empty (read_property (safeGraph_st \<sigma>) c)) i"
    consider (isback) "set_has (recursionStack \<sigma>) ?n"
      | (isfresh) "\<not> set_has (recursionStack \<sigma>) ?n" "\<not> set_has (visited \<sigma>) ?n"
      | (isold) "\<not> set_has (recursionStack \<sigma>) ?n" "set_has (visited \<sigma>) ?n" by blast
    then show ?thesis
    proof cases
      case isback
      show ?thesis
      proof (cases "read_property (safeGraph_st \<sigma>) c")
        case (Array ns)
        have "rc_unseen (\<sigma>\<lparr>safeGraph_st := splice_at (safeGraph_st \<sigma>) c i,
                  removedEdges_st := removedEdges_st \<sigma> @ [\<lparr>source = c, target = ?n\<rparr>]\<rparr>) \<subseteq> rc_unseen \<sigma>"
          using candidates_splice_at[of "safeGraph_st \<sigma>" c i] by (auto simp: rc_unseen_def seen_def)
        with 2(2)[OF True refl isback Array] show ?thesis using 2(1) True isback Array
          by (auto simp: rc_loop.psimps Let_def)
      qed (use 2(1) True isback in \<open>simp_all add: rc_loop.psimps Let_def\<close>)
    next
      case isfresh
      show ?thesis
      proof (cases "rc_dfs ?n \<sigma>")
        case (Pair r \<sigma>')
        from 2(3)[OF True refl isfresh] Pair have s1: "rc_unseen \<sigma>' \<subseteq> rc_unseen \<sigma> - {?n}" by simp
        show ?thesis
        proof (cases r)
          case (Return u)
          from 2(4)[OF True refl isfresh Pair[symmetric] Return]
          have s2: "rc_unseen (snd (rc_loop c (i - 1) \<sigma>')) \<subseteq> rc_unseen \<sigma>'" .
          have "rc_loop c i \<sigma> = rc_loop c (i - 1) \<sigma>'"
            using 2(1) True isfresh Pair Return by (simp add: rc_loop.psimps Let_def)
          with s1 s2 show ?thesis by auto
        next
          case TypeError
          have "rc_loop c i \<sigma> = (TypeError, \<sigma>')"
            using 2(1) True isfresh Pair TypeError by (simp add: rc_loop.psimps Let_def)
          with s1 show ?thesis by auto
        qed
      qed
    next
      case isold
      with 2(5)[OF True refl] show ?thesis using 2(1) True
        by (simp add: rc_loop.psimps Let_def)
    qed
  qed
qed

termination rc_dfs
proof (relation "inv_image lex3 rc_measure")
  show "wf (inv_image lex3 rc_measure)"
    by (intro wf_inv_image wf_lex_prod wf_less_than)
next
  fix c and \<sigma> \<sigma>1 :: rstate
  assume "\<sigma>1 = \<sigma>\<lparr>recursionStack := set_add (recursionStack \<sigma>) c, pathStack := pathStack \<sigma> @ [c]\<rparr>"
  then have "rc_unseen \<sigma>1 = rc_unseen \<sigma> - {c}"
    by (auto simp: rc_unseen_def seen_def)
  then show "(Inr (c, last_index (or_empty (read_property (safeGraph_st \<sigma>1) c)), \<sigma>1), Inl (c, \<sigma>))
      \<in> inv_image lex3 rc_measure"
    by (simp add: rc_measure_def)
next
  fix c i and \<sigma> :: rstate and n ns
  assume "0 \<le> i" "n = element_string (or_empty (read_property (safeGraph_st \<sigma>) c)) i"
    "set_has (recursionStack \<sigma>) n"
  have "rc_unseen (\<sigma>\<lparr>safeGraph_st := splice_at (safeGraph_st \<sigma>) c i,
                removedEdges_st := removedEdges_st \<sigma> @ [\<lparr>source = c, target = n\<rparr>]\<rparr>) \<subseteq> rc_unseen \<sigma>"
    using candidates_splice_at[of "safeGraph_st \<sigma>" c i] by (auto simp: rc_unseen_def seen_def)
  then have "card (rc_unseen (\<sigma>\<lparr>safeGraph_st := splice_at (safeGraph_st \<sigma>) c i,
                removedEdges_st := removedEdges_st \<sigma> @ [\<lparr>source = c, target = n\<rparr>]\<rparr>)) \<le> card (rc_unseen \<sigma>)"
    by (intro card_mono) auto
  with \<open>0 \<le> i\<close> show "(Inr (c, i - 1, \<sigma>\<lparr>safeGraph_st := splice_at (safeGraph_st \<sigma>) c i,
                removedEdges_st := removedEdges_st \<sigma> @ [\<lparr>source = c, target = n\<rparr>]\<rparr>), Inr (c, i, \<sigma>))
      \<in> inv_image lex3 rc_measure"
    by (auto simp: rc_measure_def)
next
  fix c i and \<sigma> :: rstate and n
  assume a: "0 \<le> i" "n = element_string (or_empty (read_property (safeGraph_st \<sigma>) c)) i"
    "\<not> set_has (recursionStack \<sigma>) n" "\<not> set_has (visited \<sigma>) n"
  then have "n \<in> rc_unseen \<sigma>"
    using string_at_candidates[of "safeGraph_st \<sigma>" c i]
    by (simp add: rc_unseen_def seen_def set_has_def element_string_own)
  then have "card (rc_unseen \<sigma> - {n}) < card (rc_unseen \<sigma>)"
    by (intro psubset_card_mono) auto
  then show "(Inl (n, \<sigma>), Inr (c, i, \<sigma>)) \<in> inv_image lex3 rc_measure"
    by (simp add: rc_measure_def)
next
  fix c and i :: int and \<sigma> \<sigma>' :: rstate and n r u
  assume a: "0 \<le> i" "(r, \<sigma>') = rc_dfs n \<sigma>" "rc_dfs_rc_loop_dom (Inl (n, \<sigma>))"
  from rc_unseen_dom(1)[OF a(3)] a(2) have "rc_unseen \<sigma>' \<subseteq> rc_unseen \<sigma>"
    by (metis Diff_subset snd_conv subset_trans)
  then have "card (rc_unseen \<sigma>') \<le> card (rc_unseen \<sigma>)"
    by (intro card_mono) auto
  with a(1) show "(Inr (c, i - 1, \<sigma>'), Inr (c, i, \<sigma>)) \<in> inv_image lex3 rc_measure"
    by (auto simp: rc_measure_def)
next
  fix c and i :: int and \<sigma> :: rstate
  assume "0 \<le> i"
  then show "(Inr (c, i - 1, \<sigma>), Inr (c, i, \<sigma>)) \<in> inv_image lex3 rc_measure"
    by (auto simp: rc_measure_def)
qed

section \<open>The plain detector\<close>

declare dfs_own.simps [simp del] dfs_steps_own.simps [simp del] dfs_skip_own.simps [simp del]
  rc_dfs_own.simps [simp del] rc_loop_own.simps [simp del]

subsection \<open>Walks\<close>

lemma walk_append_edge:
  "walk g (p @ [c]) \<longleftrightarrow> walk g p \<and> (p \<noteq> [] \<longrightarrow> c \<in> set (neighbors_of g (last p)))"
  by (induction g p rule: walk.induct) auto

lemma walk_append_right: "walk g (p @ q) \<Longrightarrow> walk g q"
proof (induction g p rule: walk.induct)
  case (2 g x)
  then show ?case by (cases q) auto
qed auto

lemma walk_append_left: "walk g (p @ q) \<Longrightarrow> walk g p"
  by (induction g p rule: walk.induct) auto

lemma walk_rtrancl: "walk g (x # p) \<Longrightarrow> (x, last (x # p)) \<in> (edges g)\<^sup>*"
proof (induction p arbitrary: x)
  case (Cons y p)
  then have "(x, y) \<in> edges g" "(y, last (y # p)) \<in> (edges g)\<^sup>*"
    by (auto simp: edges_def)
  then show ?case by (simp add: converse_rtrancl_into_rtrancl)
qed simp

lemma walk_trancl: "walk g (x # y # p) \<Longrightarrow> (x, last (y # p)) \<in> (edges g)\<^sup>+"
  using walk_rtrancl[of g y p] by (auto simp: edges_def intro: rtrancl_into_trancl2)

subsection \<open>The shape of the state after dfs\<close>

lemma removeAll_snoc_fresh: "c \<notin> set rs \<Longrightarrow> removeAll c (rs @ [c]) = rs"
  by simp

lemma dfs_shape:
  "(dfs_own g c \<sigma> = (NotFound, \<sigma>') \<longrightarrow>
      pathStack \<sigma>' = pathStack \<sigma> \<and> recursionStack \<sigma>' = recursionStack \<sigma>)
   \<and> (dfs_own g c \<sigma> = (Found k, \<sigma>') \<longrightarrow> (\<exists>ps. pathStack \<sigma>' = pathStack \<sigma> @ ps
          \<and> (c \<notin> set (recursionStack \<sigma>) \<longrightarrow> ps \<noteq> [] \<and> hd ps = c)))"
  "(dfs_loop_own g ns \<sigma> = (NotFound, \<sigma>') \<longrightarrow>
      pathStack \<sigma>' = pathStack \<sigma> \<and> recursionStack \<sigma>' = recursionStack \<sigma>)
   \<and> (dfs_loop_own g ns \<sigma> = (Found k, \<sigma>') \<longrightarrow> (\<exists>ps. pathStack \<sigma>' = pathStack \<sigma> @ ps))"
proof (induction g c \<sigma> and g ns \<sigma> arbitrary: \<sigma>' and \<sigma>' rule: dfs_own_dfs_loop_own.induct)
  case (1 g c \<sigma>)
  show ?case
  proof (cases "set_has (recursionStack \<sigma>) c \<or> set_has (visited \<sigma>) c")
    case True
    then show ?thesis by (auto simp: dfs_own.simps set_has_def)
  next
    case False
    then have nc: "c \<notin> set (recursionStack \<sigma>)" by (simp add: set_has_def)
    let ?\<sigma>1 = "\<sigma>\<lparr>recursionStack := set_add (recursionStack \<sigma>) c, pathStack := pathStack \<sigma> @ [c]\<rparr>"
    obtain r \<sigma>2 where L: "dfs_loop_own g (neighbors_of g c) ?\<sigma>1 = (r, \<sigma>2)" by fastforce
    note IH = 1[of \<sigma>2]
    show ?thesis
    proof (cases r)
      case NotFound
      with IH False L have "pathStack \<sigma>2 = pathStack \<sigma> @ [c]" "recursionStack \<sigma>2 = recursionStack \<sigma> @ [c]"
        using nc by (auto simp: set_add_def)
      with False L NotFound nc show ?thesis
        by (auto simp: dfs_own.simps set_delete_def)
    next
      case (Found k')
      with IH False L have "k' = k \<longrightarrow> (\<exists>ps. pathStack \<sigma>2 = (pathStack \<sigma> @ [c]) @ ps)"
        by auto
      with False L Found show ?thesis
        by (auto simp: dfs_own.simps)
    qed
  qed
next
  case (2 g \<sigma>)
  then show ?case by simp
next
  case (3 g n ns \<sigma>)
  obtain r \<sigma>1 where D: "dfs_own g n \<sigma> = (r, \<sigma>1)" by fastforce
  show ?case
  proof (cases r)
    case NotFound
    with 3(1)[of \<sigma>1] 3(2)[OF D[symmetric] NotFound, of \<sigma>'] D show ?thesis
      by auto
  next
    case (Found k')
    with 3(1)[of \<sigma>1] D show ?thesis by auto
  qed
qed

subsection \<open>A reported cycle is a walk\<close>

lemma dfs_found_walk:
  "set (recursionStack \<sigma>) = set (pathStack \<sigma>) \<Longrightarrow> walk g (pathStack \<sigma> @ [c]) \<Longrightarrow>
   dfs_own g c \<sigma> = (Found k, \<sigma>') \<Longrightarrow> walk g (pathStack \<sigma>' @ [k]) \<and> k \<in> set (pathStack \<sigma>')"
  "set (recursionStack \<sigma>) = set (pathStack \<sigma>) \<Longrightarrow> walk g (pathStack \<sigma>) \<Longrightarrow>
   pathStack \<sigma> \<noteq> [] \<Longrightarrow> set ns \<subseteq> set (neighbors_of g (last (pathStack \<sigma>))) \<Longrightarrow>
   dfs_loop_own g ns \<sigma> = (Found k, \<sigma>') \<Longrightarrow> walk g (pathStack \<sigma>' @ [k]) \<and> k \<in> set (pathStack \<sigma>')"
proof (induction g c \<sigma> and g ns \<sigma> arbitrary: \<sigma>' and \<sigma>' rule: dfs_own_dfs_loop_own.induct)
  case (1 g c \<sigma>)
  show ?case
  proof (cases "set_has (recursionStack \<sigma>) c")
    case True
    with 1(2-) show ?thesis by (auto simp: dfs_own.simps set_has_def)
  next
    case False
    with 1(4) have nv: "\<not> set_has (visited \<sigma>) c" by (auto simp: dfs_own.simps)
    let ?\<sigma>1 = "\<sigma>\<lparr>recursionStack := set_add (recursionStack \<sigma>) c, pathStack := pathStack \<sigma> @ [c]\<rparr>"
    from 1(4) False nv have L: "dfs_loop_own g (neighbors_of g c) ?\<sigma>1 = (Found k, \<sigma>')"
      by (auto simp: dfs_own.simps split: prod.splits dfs_result.splits)
    show ?thesis
      by (rule 1(1)[OF False nv _ _ _ _ L]) (use 1(2,3) in auto)
  qed
next
  case (2 g \<sigma>)
  then show ?case by simp
next
  case (3 g n ns \<sigma>)
  obtain r \<sigma>1 where D: "dfs_own g n \<sigma> = (r, \<sigma>1)" by fastforce
  from 3(3-6) have W: "walk g (pathStack \<sigma> @ [n])" by (simp add: walk_append_edge)
  show ?case
  proof (cases r)
    case NotFound
    with dfs_shape(1)[of g n \<sigma> \<sigma>1] D
    have eq: "pathStack \<sigma>1 = pathStack \<sigma>" "recursionStack \<sigma>1 = recursionStack \<sigma>" by auto
    from 3(7) D NotFound have L: "dfs_loop_own g ns \<sigma>1 = (Found k, \<sigma>')" by simp
    show ?thesis
      by (rule 3(2)[OF D[symmetric] NotFound _ _ _ _ L]) (use eq 3(3-6) in auto)
  next
    case (Found k')
    with 3(7) D have "dfs_own g n \<sigma> = (Found k, \<sigma>')" by simp
    from 3(1)[OF 3(3) W this] show ?thesis .
  qed
qed

subsection \<open>Nodes marked safe\<close>

lemma finished_order_snoc:
  assumes "finished_order g vs" "set (neighbors_of g c) \<subseteq> set vs"
  shows "finished_order g (vs @ [c])"
  unfolding finished_order_def
proof (intro allI impI)
  fix i assume "i < length (vs @ [c])"
  then consider "i < length vs" | "i = length vs" by fastforce
  then show "set (neighbors_of g ((vs @ [c]) ! i)) \<subseteq> set (take i (vs @ [c]))"
  proof cases
    case 1
    with assms(1) show ?thesis by (simp add: finished_order_def nth_append)
  next
    case 2
    with assms(2) show ?thesis by simp
  qed
qed

lemma finished_order_set_add:
  "finished_order g vs \<Longrightarrow> set (neighbors_of g c) \<subseteq> set vs \<Longrightarrow> finished_order g (set_add vs c)"
  by (simp add: set_add_def finished_order_snoc)

lemma dfs_finished:
  "finished_order g (visited \<sigma>) \<Longrightarrow> dfs_own g c \<sigma> = (NotFound, \<sigma>') \<Longrightarrow>
     finished_order g (visited \<sigma>') \<and> c \<in> set (visited \<sigma>') \<and> set (visited \<sigma>) \<subseteq> set (visited \<sigma>')"
  "finished_order g (visited \<sigma>) \<Longrightarrow> dfs_loop_own g ns \<sigma> = (NotFound, \<sigma>') \<Longrightarrow>
     finished_order g (visited \<sigma>') \<and> set ns \<subseteq> set (visited \<sigma>') \<and> set (visited \<sigma>) \<subseteq> set (visited \<sigma>')"
proof (induction g c \<sigma> and g ns \<sigma> arbitrary: \<sigma>' and \<sigma>' rule: dfs_own_dfs_loop_own.induct)
  case (1 g c \<sigma>)
  from 1(3) have ns: "\<not> set_has (recursionStack \<sigma>) c" by (auto simp: dfs_own.simps)
  show ?case
  proof (cases "set_has (visited \<sigma>) c")
    case True
    with 1(2,3) ns show ?thesis by (auto simp: dfs_own.simps set_has_def)
  next
    case False
    let ?\<sigma>1 = "\<sigma>\<lparr>recursionStack := set_add (recursionStack \<sigma>) c, pathStack := pathStack \<sigma> @ [c]\<rparr>"
    from 1(3) ns False obtain \<sigma>2 where L: "dfs_loop_own g (neighbors_of g c) ?\<sigma>1 = (NotFound, \<sigma>2)"
      and \<sigma>': "\<sigma>' = \<sigma>2\<lparr>recursionStack := set_delete (recursionStack \<sigma>2) c,
                            pathStack := butlast (pathStack \<sigma>2),
                            visited := set_add (visited \<sigma>2) c\<rparr>"
      by (auto simp: dfs_own.simps split: prod.splits dfs_result.splits)
    from 1(1)[OF ns False _ L] 1(2)
    have "finished_order g (visited \<sigma>2)" "set (neighbors_of g c) \<subseteq> set (visited \<sigma>2)"
      "set (visited \<sigma>) \<subseteq> set (visited \<sigma>2)" by auto
    then show ?thesis by (auto simp: \<sigma>' finished_order_set_add)
  qed
next
  case (2 g \<sigma>)
  then show ?case by simp
next
  case (3 g n ns \<sigma>)
  from 3(4) obtain \<sigma>1 where D: "dfs_own g n \<sigma> = (NotFound, \<sigma>1)" and L: "dfs_loop_own g ns \<sigma>1 = (NotFound, \<sigma>')"
    by (auto split: prod.splits dfs_result.splits)
  from 3(1)[OF 3(3) D] have a: "finished_order g (visited \<sigma>1)" "n \<in> set (visited \<sigma>1)"
    "set (visited \<sigma>) \<subseteq> set (visited \<sigma>1)" by auto
  from 3(2)[OF D[symmetric] refl a(1) L] a show ?case by auto
qed

lemma finished_order_trancl:
  assumes "finished_order g vs" "i < length vs" "(vs ! i, w) \<in> (edges g)\<^sup>+"
  shows "w \<in> set (take i vs)"
  using assms(3)
proof (induction rule: trancl_induct)
  case (base y)
  with assms(1,2) show ?case by (auto simp: finished_order_def edges_def)
next
  case (step y z)
  then obtain j where j: "j < i" "j < length vs" "vs ! j = y"
    using assms(2) by (auto simp: in_set_conv_nth)
  with assms(1) step(2) have "z \<in> set (take j vs)"
    by (auto simp: finished_order_def edges_def)
  with j(1) show ?case
    using set_take_subset_set_take[of j i vs] by auto
qed

lemma finished_order_closed:
  assumes "finished_order g vs" "v \<in> set vs" "(v, w) \<in> (edges g)\<^sup>*"
  shows "w \<in> set vs"
proof -
  from assms(2) obtain i where i: "i < length vs" "vs ! i = v" by (auto simp: in_set_conv_nth)
  from assms(3) show ?thesis
  proof (cases rule: rtranclE)
    case base
    with assms(2) show ?thesis by simp
  next
    case (step y)
    then have "(v, w) \<in> (edges g)\<^sup>+" by (rule rtrancl_into_trancl1)
    with finished_order_trancl[OF assms(1) i(1)] i(2) show ?thesis
      by (auto dest: in_set_takeD)
  qed
qed

lemma finished_order_acyclic:
  assumes "finished_order g vs" "v \<in> set vs"
  shows "(v, v) \<notin> (edges g)\<^sup>+"
proof
  assume c: "(v, v) \<in> (edges g)\<^sup>+"
  define i where "i = (LEAST i. i < length vs \<and> vs ! i = v)"
  from assms(2) have "\<exists>i. i < length vs \<and> vs ! i = v" by (auto simp: in_set_conv_nth)
  then have i: "i < length vs" "vs ! i = v" unfolding i_def by (metis (mono_tags, lifting) LeastI_ex)+
  with finished_order_trancl[OF assms(1) i(1)] c have "v \<in> set (take i vs)" by simp
  then obtain j where j: "j < i" "vs ! j = v" using i(1) by (auto simp: in_set_conv_nth)
  then have "j < length vs \<and> vs ! j = v" using i(1) by simp
  then have "i \<le> j" unfolding i_def by (rule Least_le)
  with j(1) show False by simp
qed

lemma slice_indexOf: "k \<in> set ps \<Longrightarrow> slice ps (indexOf ps k) = dropWhile (\<lambda>y. y \<noteq> k) ps"
  by (simp add: slice_def indexOf_def dropWhile_eq_drop)

lemma finished_order_Nil [simp]: "finished_order g []"
  by (simp add: finished_order_def)

lemma found_path_cycle:
  assumes w: "walk g (ps @ [k])" and k: "k \<in> set ps" and hd: "hd ps = s"
  shows "closed_walk g (dropWhile (\<lambda>y. y \<noteq> k) ps @ [k])" "cycle_reachable g s"
proof -
  define as where "as = takeWhile (\<lambda>y. y \<noteq> k) ps"
  from k have ne: "dropWhile (\<lambda>y. y \<noteq> k) ps \<noteq> []"
    by (auto simp: dropWhile_eq_Nil_conv)
  from hd_dropWhile[OF this] have "hd (dropWhile (\<lambda>y. y \<noteq> k) ps) = k" by simp
  with ne obtain bs where dw: "dropWhile (\<lambda>y. y \<noteq> k) ps = k # bs"
    by (cases "dropWhile (\<lambda>y. y \<noteq> k) ps") auto
  have ps: "ps = as @ k # bs"
    unfolding as_def dw[symmetric] by simp
  from w have w1: "walk g (as @ (k # bs @ [k]))" by (simp add: ps)
  then have w2: "walk g (k # bs @ [k])" by (rule walk_append_right)
  then show "closed_walk g (dropWhile (\<lambda>y. y \<noteq> k) ps @ [k])"
    by (simp add: dw closed_walk_def)
  obtain y p where yp: "bs @ [k] = y # p" by (cases "bs @ [k]") auto
  with w2 have "(k, last (y # p)) \<in> (edges g)\<^sup>+"
    using walk_trancl[of g k y p] by simp
  moreover have "last (y # p) = k" by (metis yp last_snoc)
  ultimately have cyc: "(k, k) \<in> (edges g)\<^sup>+" by simp
  from w have "walk g ((as @ [k]) @ bs @ [k])" by (simp add: ps)
  then have w3: "walk g (as @ [k])" by (rule walk_append_left)
  have "(s, k) \<in> (edges g)\<^sup>*"
  proof (cases as)
    case Nil
    with hd ps show ?thesis by simp
  next
    case (Cons a as')
    with hd ps have "a = s" by simp
    with w3 Cons walk_rtrancl[of g s "as' @ [k]"] show ?thesis by simp
  qed
  with cyc show "cycle_reachable g s" by (auto simp: cycle_reachable_def)
qed

lemma runDetection_found:
  assumes "fmlookup g s \<noteq> None" "dfs_own g s init_tstate = (Found k, \<sigma>)"
  shows "closed_walk g (slice (pathStack \<sigma>) (indexOf (pathStack \<sigma>) k) @ [k])" "cycle_reachable g s"
proof -
  from dfs_shape(1)[of g s init_tstate \<sigma> k] assms(2)
  have hd: "pathStack \<sigma> \<noteq> []" "hd (pathStack \<sigma>) = s" by (auto simp: init_tstate_def)
  from dfs_found_walk(1)[OF _ _ assms(2)]
  have w: "walk g (pathStack \<sigma> @ [k])" "k \<in> set (pathStack \<sigma>)" by (auto simp: init_tstate_def)
  from found_path_cycle[OF w hd(2)] w(2)
  show "closed_walk g (slice (pathStack \<sigma>) (indexOf (pathStack \<sigma>) k) @ [k])" "cycle_reachable g s"
    by (simp_all add: slice_indexOf)
qed

lemma runDetection_not_found:
  assumes "dfs_own g s init_tstate = (NotFound, \<sigma>)"
  shows "\<not> cycle_reachable g s"
proof
  assume "cycle_reachable g s"
  then obtain v where v: "(s, v) \<in> (edges g)\<^sup>*" "(v, v) \<in> (edges g)\<^sup>+"
    by (auto simp: cycle_reachable_def)
  from dfs_finished(1)[OF _ assms] have f: "finished_order g (visited \<sigma>)" "s \<in> set (visited \<sigma>)"
    by (auto simp: init_tstate_def)
  from finished_order_closed[OF f v(1)] finished_order_acyclic[OF f(1)] v(2) show False by blast
qed

text \<open>
  On own properties. For a start node that is a key of the graph, \<open>runDetection\<close> reports
  \<open>found\<close> exactly when a cycle is reachable from the start node, and when it does,
  \<open>loopPath\<close> is a closed walk of the graph: consecutive elements are joined by edges
  and the first element equals the last.
\<close>

theorem runDetection_correct:
  assumes "startNode \<in> fmdom' graphData"
  shows "(found (runDetection_own graphData startNode) \<longleftrightarrow> cycle_reachable graphData startNode)
    \<and> (found (runDetection_own graphData startNode) \<longrightarrow>
         (\<exists>p. loopPath (runDetection_own graphData startNode) = Some p \<and> closed_walk graphData p))"
proof -
  from assms have key: "fmlookup graphData startNode \<noteq> None"
    by (simp add: fmlookup_dom'_iff)
  obtain r \<sigma> where D: "dfs_own graphData startNode init_tstate = (r, \<sigma>)" by fastforce
  show ?thesis
  proof (cases r)
    case NotFound
    with D key runDetection_not_found[of graphData startNode \<sigma>] show ?thesis
      by (simp add: runDetection_own_def plain_result_def)
  next
    case (Found k)
    with D key runDetection_found[of graphData startNode k \<sigma>] show ?thesis
      by (simp add: runDetection_own_def plain_result_def Let_def)
  qed
qed

theorem runDetection_correct_witness:
  "''1'' \<in> fmdom' scenario1
   \<and> found (runDetection_own scenario1 ''1'') \<and> cycle_reachable scenario1 ''1''
   \<and> loopPath (runDetection_own scenario1 ''1'') = Some [''2'', ''3'', ''2'']
   \<and> closed_walk scenario1 [''2'', ''3'', ''2'']"
proof -
  have key: "''1'' \<in> fmdom' scenario1"
    by (simp add: scenario1_def)
  have run: "found (runDetection_own scenario1 ''1'')"
    "loopPath (runDetection_own scenario1 ''1'') = Some [''2'', ''3'', ''2'']"
    by code_simp+
  from runDetection_correct[OF key] run key show ?thesis by auto
qed

section \<open>A start node that is not a key\<close>

text \<open>
  On own properties. When the start node is not a key of the graph, \<open>runDetection\<close> returns,
  without any traversal, the object with \<open>found = False\<close> and the error text
  \<^verbatim>\<open>Node "<startNode>" not found in graph\<close>, which is not empty and contains the
  identifier of the start node.
\<close>

theorem runDetection_missing_start:
  assumes "startNode \<notin> fmdom' graphData"
  shows "runDetection_own graphData startNode =
           (plain_result False)\<lparr>error := Some (''Node '' @ dquote @ startNode @ dquote @ '' not found in graph'')\<rparr>
    \<and> found (runDetection_own graphData startNode) = False
    \<and> (\<exists>msg. error (runDetection_own graphData startNode) = Some msg \<and> msg \<noteq> []
          \<and> (\<exists>pre post. msg = pre @ startNode @ post))"
proof -
  from assms have "fmlookup graphData startNode = None" by auto
  then have r: "runDetection_own graphData startNode =
           (plain_result False)\<lparr>error := Some (''Node '' @ dquote @ startNode @ dquote @ '' not found in graph'')\<rparr>"
    by (simp add: runDetection_own_def not_found_message_def)
  have "''Node '' @ dquote @ startNode @ dquote @ '' not found in graph''
       = (''Node '' @ dquote) @ startNode @ (dquote @ '' not found in graph'')" by simp
  then have "\<exists>pre post. ''Node '' @ dquote @ startNode @ dquote @ '' not found in graph'' = pre @ startNode @ post"
    by blast
  with r show ?thesis by (simp add: plain_result_def)
qed

theorem runDetection_missing_start_witness:
  "''99'' \<notin> fmdom' scenario1
   \<and> found (runDetection_own scenario1 ''99'') = False
   \<and> error (runDetection_own scenario1 ''99'')
       = Some (''Node '' @ dquote @ ''99'' @ dquote @ '' not found in graph'')"
proof -
  have h: "''99'' \<notin> fmdom' scenario1" by (simp add: scenario1_def)
  from runDetection_missing_start[OF h] h show ?thesis by (simp add: plain_result_def)
qed

text \<open>
  On own properties. Both instrumented detectors record \<open>START\<close> before they look the start
  node up: when it is not a key of the graph, the error result carries a trace of
  exactly one record, the \<open>START\<close> record of the start node taken in the empty state.
\<close>

theorem steps_missing_start:
  assumes "startNode \<notin> fmdom' graphData"
  shows "\<exists>s. action s = START \<and> node s = startNode
      \<and> visited s = [] \<and> recursionStack s = [] \<and> pathStack s = []
      \<and> steps (runDetectionWithSteps_own graphData startNode) = Some [s]
      \<and> steps (runDetectionWithSteps_skip_own graphData startNode) = Some [s]
      \<and> found (runDetectionWithSteps_own graphData startNode) = False
      \<and> found (runDetectionWithSteps_skip_own graphData startNode) = False
      \<and> error (runDetectionWithSteps_own graphData startNode) = Some (not_found_message startNode)
      \<and> error (runDetectionWithSteps_skip_own graphData startNode) = Some (not_found_message startNode)"
proof -
  from assms have "fmlookup graphData startNode = None" by auto
  then show ?thesis
    by (simp add: runDetectionWithSteps_own_def runDetectionWithSteps_skip_own_def Let_def plain_result_def
        log_start_def init_istate_def init_sstate_def)
qed

theorem steps_missing_start_witness:
  "''99'' \<notin> fmdom' scenario1
   \<and> (\<exists>s. action s = START \<and> node s = ''99''
      \<and> steps (runDetectionWithSteps_own scenario1 ''99'') = Some [s]
      \<and> steps (runDetectionWithSteps_skip_own scenario1 ''99'') = Some [s])"
proof -
  have h: "''99'' \<notin> fmdom' scenario1" by (simp add: scenario1_def)
  from steps_missing_start[OF h] h show ?thesis by blast
qed

section \<open>The instrumented detector against the plain one\<close>

lemma tstate_of_fields [simp]:
  "visited (tstate_of \<sigma>) = visited \<sigma>"
  "recursionStack (tstate_of \<sigma>) = recursionStack \<sigma>"
  "pathStack (tstate_of \<sigma>) = pathStack \<sigma>"
  by (simp_all add: tstate_of_def)

lemma tstate_of_log [simp]:
  "tstate_of (log_enter_node c \<sigma>) = tstate_of \<sigma>"
  "tstate_of (log_check_in_stack c \<sigma>) = tstate_of \<sigma>"
  "tstate_of (log_cycle_found c \<sigma>) = tstate_of \<sigma>"
  "tstate_of (log_check_visited c \<sigma>) = tstate_of \<sigma>"
  "tstate_of (log_skip_visited c \<sigma>) = tstate_of \<sigma>"
  "tstate_of (log_add_to_stack c \<sigma>) = tstate_of \<sigma>"
  "tstate_of (log_explore_neighbor c n \<sigma>) = tstate_of \<sigma>"
  "tstate_of (log_backtrack c \<sigma>) = tstate_of \<sigma>"
  "tstate_of (log_mark_safe c \<sigma>) = tstate_of \<sigma>"
  "tstate_of (log_start c \<sigma>) = tstate_of \<sigma>"
  by (simp_all add: tstate_of_def)

lemma tstate_of_push:
  "tstate_of (\<sigma>\<lparr>recursionStack := rs, pathStack := ps\<rparr>) = (tstate_of \<sigma>)\<lparr>recursionStack := rs, pathStack := ps\<rparr>"
  by (simp add: tstate_of_def)

lemma tstate_of_pop:
  "tstate_of (\<sigma>\<lparr>recursionStack := rs, pathStack := ps, visited := vs\<rparr>)
     = (tstate_of \<sigma>)\<lparr>recursionStack := rs, pathStack := ps, visited := vs\<rparr>"
  by (simp add: tstate_of_def)

lemma dfs_steps_simulates:
  "dfs_steps_own g c \<sigma> = (r, \<sigma>') \<Longrightarrow>
     dfs_own g c (tstate_of \<sigma>) = (erase_result r, tstate_of \<sigma>')
     \<and> (\<forall>k e. r = FoundS k e \<longrightarrow> e = \<lparr>source = last_elem (pathStack \<sigma>'), target = k\<rparr>)"
  "dfs_steps_loop_own g c ns \<sigma> = (r, \<sigma>') \<Longrightarrow>
     dfs_loop_own g ns (tstate_of \<sigma>) = (erase_result r, tstate_of \<sigma>')
     \<and> (\<forall>k e. r = FoundS k e \<longrightarrow> e = \<lparr>source = last_elem (pathStack \<sigma>'), target = k\<rparr>)"
proof (induction g c \<sigma> and g c ns \<sigma> arbitrary: r \<sigma>' and r \<sigma>' rule: dfs_steps_own_dfs_steps_loop_own.induct)
  case (1 g c \<sigma>)
  note IH = 1(1)[OF refl _ refl]
  show ?case
  proof (cases "set_has (recursionStack \<sigma>) c \<or> set_has (visited \<sigma>) c")
    case True
    with 1(2) show ?thesis
      by (auto simp: dfs_steps_own.simps dfs_own.simps Let_def erase_result_def)
  next
    case False
    let ?\<sigma>1 = "log_add_to_stack c ((log_check_visited c (log_check_in_stack c (log_enter_node c \<sigma>)))
        \<lparr>recursionStack := set_add (recursionStack \<sigma>) c, pathStack := pathStack \<sigma> @ [c]\<rparr>)"
    obtain r1 \<sigma>2 where L: "dfs_steps_loop_own g c (neighbors_of g c) ?\<sigma>1 = (r1, \<sigma>2)" by fastforce
    from False IH[of r1 \<sigma>2] L
    have sim: "dfs_loop_own g (neighbors_of g c) (tstate_of ?\<sigma>1) = (erase_result r1, tstate_of \<sigma>2)"
      and e: "\<forall>k e. r1 = FoundS k e \<longrightarrow> e = \<lparr>source = last_elem (pathStack \<sigma>2), target = k\<rparr>"
      by auto
    from sim have sim': "dfs_loop_own g (neighbors_of g c)
        ((tstate_of \<sigma>)\<lparr>recursionStack := set_add (recursionStack \<sigma>) c, pathStack := pathStack \<sigma> @ [c]\<rparr>)
        = (erase_result r1, tstate_of \<sigma>2)"
      by (simp add: tstate_of_push)
    show ?thesis
    proof (cases r1)
      case NotFoundS
      with 1(2) False L sim' show ?thesis
        by (auto simp: dfs_steps_own.simps dfs_own.simps Let_def erase_result_def tstate_of_pop)
    next
      case (FoundS k e')
      with 1(2) False L sim' e show ?thesis
        by (auto simp: dfs_steps_own.simps dfs_own.simps Let_def erase_result_def)
    qed
  qed
next
  case (2 g c \<sigma>)
  then show ?case by (auto simp: erase_result_def)
next
  case (3 g c n ns \<sigma>)
  obtain r1 \<sigma>1 where D: "dfs_steps_own g n (log_explore_neighbor c n \<sigma>) = (r1, \<sigma>1)" by fastforce
  note a = 3(1)[OF D, simplified]
  show ?case
  proof (cases r1)
    case NotFoundS
    with 3(2)[OF D[symmetric] NotFoundS, of r \<sigma>'] 3(3) D a show ?thesis
      by (auto simp: erase_result_def)
  next
    case (FoundS k e')
    with 3(3) D a show ?thesis by (auto simp: erase_result_def)
  qed
qed

lemma runDetectionWithSteps_agrees:
  "found (runDetectionWithSteps_own g s) = found (runDetection_own g s)"
  "loopPath (runDetectionWithSteps_own g s) = loopPath (runDetection_own g s)"
  "path (runDetectionWithSteps_own g s) = path (runDetection_own g s)"
  "error (runDetectionWithSteps_own g s) = error (runDetection_own g s)"
proof -
  obtain r \<sigma> where D: "dfs_steps_own g s (log_start s init_istate) = (r, \<sigma>)" by fastforce
  have t: "tstate_of init_istate = init_tstate"
    by (simp add: tstate_of_def init_istate_def init_tstate_def)
  from dfs_steps_simulates(1)[OF D] have P: "dfs_own g s init_tstate = (erase_result r, tstate_of \<sigma>)"
    by (simp add: t)
  show "found (runDetectionWithSteps_own g s) = found (runDetection_own g s)"
    "loopPath (runDetectionWithSteps_own g s) = loopPath (runDetection_own g s)"
    "path (runDetectionWithSteps_own g s) = path (runDetection_own g s)"
    "error (runDetectionWithSteps_own g s) = error (runDetection_own g s)"
    using D P
    by (cases r; simp add: runDetectionWithSteps_own_def runDetection_own_def Let_def plain_result_def erase_result_def)+
qed

lemma runDetection_no_cycleEdge: "cycleEdge (runDetection_own g s) = None"
  by (simp add: runDetection_own_def plain_result_def Let_def split: prod.splits dfs_result.splits)

lemma last_dropWhile: "k \<in> set ps \<Longrightarrow> last (dropWhile (\<lambda>y. y \<noteq> k) ps) = last ps"
  by (induction ps) (auto simp: dropWhile_eq_Nil_conv)

lemma runDetectionWithSteps_cycleEdge:
  "cycleEdge (runDetectionWithSteps_own g s) =
     (case loopPath (runDetectionWithSteps_own g s) of
        None \<Rightarrow> None
      | Some p \<Rightarrow> Some \<lparr>source = Some (last (butlast p)), target = last p\<rparr>)"
proof (cases "fmlookup g s = None")
  case True
  then show ?thesis by (simp add: runDetectionWithSteps_own_def plain_result_def Let_def)
next
  case False
  obtain r \<sigma> where D: "dfs_steps_own g s (log_start s init_istate) = (r, \<sigma>)" by fastforce
  have t: "tstate_of init_istate = init_tstate"
    by (simp add: tstate_of_def init_istate_def init_tstate_def)
  show ?thesis
  proof (cases r)
    case NotFoundS
    with D False show ?thesis by (simp add: runDetectionWithSteps_own_def plain_result_def Let_def)
  next
    case (FoundS k e)
    with dfs_steps_simulates(1)[OF D]
    have P: "dfs_own g s init_tstate = (Found k, tstate_of \<sigma>)"
      and e: "e = \<lparr>source = last_elem (pathStack \<sigma>), target = k\<rparr>"
      by (simp_all add: t erase_result_def)
    from dfs_found_walk(1)[OF _ _ P] have k: "k \<in> set (pathStack \<sigma>)"
      by (simp add: init_tstate_def)
    then have ne: "pathStack \<sigma> \<noteq> []" by auto
    from k have "dropWhile (\<lambda>y. y \<noteq> k) (pathStack \<sigma>) \<noteq> []" by (auto simp: dropWhile_eq_Nil_conv)
    with D False FoundS e k ne show ?thesis
      by (simp add: runDetectionWithSteps_own_def plain_result_def Let_def slice_indexOf last_elem_def
          last_dropWhile)
  qed
qed

text \<open>
  On own properties. Dropping the trace, the stop-at-first-cycle instrumented detector
  returns the same \<open>found\<close> and the same \<open>loopPath\<close> as the plain detector on every
  graph and start node. The plain detector returns no \<open>cycleEdge\<close> at all; the
  instrumented one returns, when a cycle is found, the last edge of \<open>loopPath\<close>.
\<close>

theorem runDetectionWithSteps_refines:
  "found (runDetectionWithSteps_own graphData startNode) = found (runDetection_own graphData startNode)
   \<and> loopPath (runDetectionWithSteps_own graphData startNode) = loopPath (runDetection_own graphData startNode)
   \<and> cycleEdge (runDetection_own graphData startNode) = None
   \<and> cycleEdge (runDetectionWithSteps_own graphData startNode) =
       (case loopPath (runDetection_own graphData startNode) of
          None \<Rightarrow> None
        | Some p \<Rightarrow> Some \<lparr>source = Some (last (butlast p)), target = last p\<rparr>)"
  using runDetectionWithSteps_agrees(1,2)[of graphData startNode]
    runDetection_no_cycleEdge[of graphData startNode]
    runDetectionWithSteps_cycleEdge[of graphData startNode]
  by simp

text \<open>
  On own properties too, \<open>cycleEdge\<close> differs: on the first test graph the instrumented
  detector reports the edge from 3 to 2, the plain detector none.
\<close>

theorem cycleEdge_differs_own:
  "cycleEdge (runDetectionWithSteps_own scenario1 ''1'') \<noteq> cycleEdge (runDetection_own scenario1 ''1'')"
  by code_simp

section \<open>The snapshots of a trace\<close>

lemma visited_grows_snoc:
  assumes "visited_grows ss" "\<forall>x \<in> set ss. set (visited x) \<subseteq> set (visited s)"
  shows "visited_grows (ss @ [s])"
  unfolding visited_grows_def
proof (intro allI impI)
  fix i j assume ij: "i \<le> j \<and> j < length (ss @ [s])"
  show "set (visited ((ss @ [s]) ! i)) \<subseteq> set (visited ((ss @ [s]) ! j))"
  proof (cases "j < length ss")
    case True
    with ij assms(1) show ?thesis by (simp add: visited_grows_def nth_append)
  next
    case False
    with ij have j: "j = length ss" by simp
    show ?thesis
    proof (cases "i < length ss")
      case True
      with assms(2) j show ?thesis by (simp add: nth_append)
    next
      case False
      with ij j show ?thesis by simp
    qed
  qed
qed

lemma keeps_snapshot_simps [simp]:
  "keeps_snapshot id"
  "keeps_snapshot (\<lambda>s. s\<lparr>isCycle := a, cycleNode := b\<rparr>)"
  "keeps_snapshot (\<lambda>s. s\<lparr>targetNeighbor := c\<rparr>)"
  "keeps_snapshot (\<lambda>s. s\<lparr>skippedEdge := d\<rparr>)"
  by (simp_all add: keeps_snapshot_def)

lemma consistent_cong:
  "visited \<sigma>' = visited \<sigma> \<Longrightarrow> recursionStack \<sigma>' = recursionStack \<sigma> \<Longrightarrow>
   pathStack \<sigma>' = pathStack \<sigma> \<Longrightarrow> consistent \<sigma>' = consistent \<sigma>"
  by (simp add: consistent_def)



lemma trace_inv_captureState:
  assumes "trace_inv \<sigma>" "keeps_snapshot ex"
  shows "trace_inv (captureState a n e ex \<sigma>)"
proof -
  let ?s = "ex \<lparr>visited = visited \<sigma>, recursionStack = recursionStack \<sigma>,
                 pathStack = pathStack \<sigma>, action = a, node = n, explanation = e,
                 isCycle = None, cycleNode = None, targetNeighbor = None,
                 skippedEdge = None\<rparr>"
  from assms(2) have s: "visited ?s = visited \<sigma>" "recursionStack ?s = recursionStack \<sigma>"
    "pathStack ?s = pathStack \<sigma>" by (simp_all add: keeps_snapshot_def)
  from assms(1) have c: "consistent ?s"
    using consistent_cong[OF s] by (simp add: trace_inv_def)
  from assms(1) have g: "visited_grows (stepsLog \<sigma> @ [?s])"
    by (intro visited_grows_snoc) (auto simp: trace_inv_def s)
  have c': "consistent (captureState a n e ex \<sigma>) = consistent \<sigma>"
    by (rule consistent_cong) simp_all
  from assms(1) c g c' show ?thesis
    by (auto simp: trace_inv_def s)
qed

lemma trace_inv_log [simp]:
  "trace_inv \<sigma> \<Longrightarrow> trace_inv (log_start c \<sigma>)"
  "trace_inv \<sigma> \<Longrightarrow> trace_inv (log_enter_node c \<sigma>)"
  "trace_inv \<sigma> \<Longrightarrow> trace_inv (log_check_in_stack c \<sigma>)"
  "trace_inv \<sigma> \<Longrightarrow> trace_inv (log_cycle_found c \<sigma>)"
  "trace_inv \<sigma> \<Longrightarrow> trace_inv (log_check_visited c \<sigma>)"
  "trace_inv \<sigma> \<Longrightarrow> trace_inv (log_skip_visited c \<sigma>)"
  "trace_inv \<sigma> \<Longrightarrow> trace_inv (log_add_to_stack c \<sigma>)"
  "trace_inv \<sigma> \<Longrightarrow> trace_inv (log_explore_neighbor c n \<sigma>)"
  "trace_inv \<sigma> \<Longrightarrow> trace_inv (log_backtrack c \<sigma>)"
  "trace_inv \<sigma> \<Longrightarrow> trace_inv (log_mark_safe c \<sigma>)"
  "trace_inv \<sigma> \<Longrightarrow> trace_inv (log_complete c \<sigma>)"
  "trace_inv \<sigma> \<Longrightarrow> trace_inv (log_cycle_detected c \<sigma>)"
  "trace_inv \<sigma> \<Longrightarrow> trace_inv (log_skip_cycle so c be \<sigma>)"
  "trace_inv \<sigma> \<Longrightarrow> trace_inv (log_complete_skipped c k \<sigma>)"
  by (simp_all add: log_defs trace_inv_captureState)






lemma dfs_skip_shape:
  "pathStack (snd (dfs_skip_own g c \<sigma>)) = pathStack \<sigma> \<and> recursionStack (snd (dfs_skip_own g c \<sigma>)) = recursionStack \<sigma>"
  "pathStack (dfs_skip_loop_own g c ns \<sigma>) = pathStack \<sigma> \<and> recursionStack (dfs_skip_loop_own g c ns \<sigma>) = recursionStack \<sigma>"
proof (induction g c \<sigma> and g c ns \<sigma> rule: dfs_skip_own_dfs_skip_loop_own.induct)
  case (1 g c \<sigma>)
  note IH = 1[OF refl _ refl]
  show ?case
  proof (cases "set_has (recursionStack \<sigma>) c \<or> set_has (visited \<sigma>) c")
    case True
    then show ?thesis by (auto simp: dfs_skip_own.simps Let_def)
  next
    case False
    with IH show ?thesis
      by (auto simp: dfs_skip_own.simps Let_def set_has_def set_add_def set_delete_def)
  qed
next
  case (2 g c \<sigma>)
  then show ?case by simp
next
  case (3 g c n ns \<sigma>)
  then show ?case by simp
qed








section \<open>The skip-and-continue detector\<close>

lemma skippedEdges_acc_captureState [simp]:
  "skippedEdges_acc (captureState a n e ex \<sigma>) = skippedEdges_acc \<sigma>"
  by (simp add: captureState_def)

lemma skippedEdges_acc_log [simp]:
  "skippedEdges_acc (log_enter_node c \<sigma>) = skippedEdges_acc \<sigma>"
  "skippedEdges_acc (log_check_in_stack c \<sigma>) = skippedEdges_acc \<sigma>"
  "skippedEdges_acc (log_cycle_detected c \<sigma>) = skippedEdges_acc \<sigma>"
  "skippedEdges_acc (log_check_visited c \<sigma>) = skippedEdges_acc \<sigma>"
  "skippedEdges_acc (log_skip_visited c \<sigma>) = skippedEdges_acc \<sigma>"
  "skippedEdges_acc (log_add_to_stack c \<sigma>) = skippedEdges_acc \<sigma>"
  "skippedEdges_acc (log_backtrack c \<sigma>) = skippedEdges_acc \<sigma>"
  "skippedEdges_acc (log_mark_safe c \<sigma>) = skippedEdges_acc \<sigma>"
  "skippedEdges_acc (log_start c \<sigma>) = skippedEdges_acc \<sigma>"
  "skippedEdges_acc (log_complete c \<sigma>) = skippedEdges_acc \<sigma>"
  "skippedEdges_acc (log_complete_skipped c k \<sigma>) = skippedEdges_acc \<sigma>"
  "skippedEdges_acc (log_skip_cycle so c e \<sigma>) = skippedEdges_acc \<sigma>"
  by (simp_all add: log_defs)

lemma dfs_skip_cases:
  "c \<in> set (recursionStack \<sigma>) \<Longrightarrow> snd (dfs_skip_own g c \<sigma>) = skip_back c \<sigma>"
  "c \<notin> set (recursionStack \<sigma>) \<Longrightarrow> c \<in> set (visited \<sigma>) \<Longrightarrow> snd (dfs_skip_own g c \<sigma>) = skip_seen c \<sigma>"
  "c \<notin> set (recursionStack \<sigma>) \<Longrightarrow> c \<notin> set (visited \<sigma>) \<Longrightarrow>
     snd (dfs_skip_own g c \<sigma>) = skip_leave c (dfs_skip_loop_own g c (neighbors_of g c) (skip_enter c \<sigma>))"
  by (simp_all add: dfs_skip_own.simps Let_def set_has_def skip_back_def skip_seen_def skip_leave_def skip_enter_def)

lemma explored_back_edges_simps [simp]:
  "explored_back_edges [] = []"
  "explored_back_edges (a @ b) = explored_back_edges a @ explored_back_edges b"
  by (simp_all add: explored_back_edges_def)

lemma recorded_skips_simps [simp]:
  "recorded_skips [] = []"
  "recorded_skips (a @ b) = recorded_skips a @ recorded_skips b"
  by (simp_all add: recorded_skips_def)

lemma skip_enter_fields [simp]:
  "visited (skip_enter c \<sigma>) = visited \<sigma>"
  "recursionStack (skip_enter c \<sigma>) = set_add (recursionStack \<sigma>) c"
  "pathStack (skip_enter c \<sigma>) = pathStack \<sigma> @ [c]"
  "skippedEdges_acc (skip_enter c \<sigma>) = skippedEdges_acc \<sigma>"
  "explored_back_edges (stepsLog (skip_enter c \<sigma>)) = explored_back_edges (stepsLog \<sigma>)"
  "recorded_skips (stepsLog (skip_enter c \<sigma>)) = recorded_skips (stepsLog \<sigma>)"
  by (simp_all add: skip_enter_def log_defs) (simp_all add: explored_back_edges_def recorded_skips_def)

lemma skip_leave_fields [simp]:
  "visited (skip_leave c \<sigma>) = set_add (visited \<sigma>) c"
  "recursionStack (skip_leave c \<sigma>) = set_delete (recursionStack \<sigma>) c"
  "pathStack (skip_leave c \<sigma>) = butlast (pathStack \<sigma>)"
  "skippedEdges_acc (skip_leave c \<sigma>) = skippedEdges_acc \<sigma>"
  "explored_back_edges (stepsLog (skip_leave c \<sigma>)) = explored_back_edges (stepsLog \<sigma>)"
  "recorded_skips (stepsLog (skip_leave c \<sigma>)) = recorded_skips (stepsLog \<sigma>)"
  by (simp_all add: skip_leave_def log_defs) (simp_all add: explored_back_edges_def recorded_skips_def)

lemma skip_back_fields [simp]:
  "visited (skip_back c \<sigma>) = visited \<sigma>"
  "recursionStack (skip_back c \<sigma>) = recursionStack \<sigma>"
  "pathStack (skip_back c \<sigma>) = pathStack \<sigma>"
  "skippedEdges_acc (skip_back c \<sigma>) = skippedEdges_acc \<sigma> @ [\<lparr>source = last_elem (pathStack \<sigma>), target = c\<rparr>]"
  "explored_back_edges (stepsLog (skip_back c \<sigma>)) = explored_back_edges (stepsLog \<sigma>)"
  "recorded_skips (stepsLog (skip_back c \<sigma>)) = recorded_skips (stepsLog \<sigma>) @ [\<lparr>source = last_elem (pathStack \<sigma>), target = c\<rparr>]"
  by (simp_all add: skip_back_def log_defs) (simp_all add: explored_back_edges_def recorded_skips_def)

lemma skip_seen_fields [simp]:
  "visited (skip_seen c \<sigma>) = visited \<sigma>"
  "recursionStack (skip_seen c \<sigma>) = recursionStack \<sigma>"
  "pathStack (skip_seen c \<sigma>) = pathStack \<sigma>"
  "skippedEdges_acc (skip_seen c \<sigma>) = skippedEdges_acc \<sigma>"
  "explored_back_edges (stepsLog (skip_seen c \<sigma>)) = explored_back_edges (stepsLog \<sigma>)"
  "recorded_skips (stepsLog (skip_seen c \<sigma>)) = recorded_skips (stepsLog \<sigma>)"
  by (simp_all add: skip_seen_def log_defs) (simp_all add: explored_back_edges_def recorded_skips_def)

lemma log_explore_neighbor_skips [simp]:
  "skippedEdges_acc (log_explore_neighbor c n \<sigma>) = skippedEdges_acc \<sigma>"
  "explored_back_edges (stepsLog (log_explore_neighbor c n \<sigma>)) =
     explored_back_edges (stepsLog \<sigma>)
       @ (if n \<in> set (recursionStack \<sigma>) then [\<lparr>source = Some c, target = n\<rparr>] else [])"
  "recorded_skips (stepsLog (log_explore_neighbor c n \<sigma>)) = recorded_skips (stepsLog \<sigma>)"
  by (simp_all add: log_defs) (simp_all add: explored_back_edges_def recorded_skips_def)

lemma dfs_skip_skipped:
  "explored_back_edges (stepsLog \<sigma>) = skippedEdges_acc \<sigma>
      @ (if c \<in> set (recursionStack \<sigma>) then [\<lparr>source = last_elem (pathStack \<sigma>), target = c\<rparr>] else []) \<Longrightarrow>
   recorded_skips (stepsLog \<sigma>) = skippedEdges_acc \<sigma> \<Longrightarrow>
   explored_back_edges (stepsLog (snd (dfs_skip_own g c \<sigma>))) = skippedEdges_acc (snd (dfs_skip_own g c \<sigma>))
   \<and> recorded_skips (stepsLog (snd (dfs_skip_own g c \<sigma>))) = skippedEdges_acc (snd (dfs_skip_own g c \<sigma>))"
  "explored_back_edges (stepsLog \<sigma>) = skippedEdges_acc \<sigma> \<Longrightarrow> last_elem (pathStack \<sigma>) = Some c \<Longrightarrow>
   recorded_skips (stepsLog \<sigma>) = skippedEdges_acc \<sigma> \<Longrightarrow>
   explored_back_edges (stepsLog (dfs_skip_loop_own g c ns \<sigma>)) = skippedEdges_acc (dfs_skip_loop_own g c ns \<sigma>)
   \<and> recorded_skips (stepsLog (dfs_skip_loop_own g c ns \<sigma>)) = skippedEdges_acc (dfs_skip_loop_own g c ns \<sigma>)"
proof (induction g c \<sigma> and g c ns \<sigma> rule: dfs_skip_own_dfs_skip_loop_own.induct)
  case (1 g c \<sigma>)
  consider (isback) "c \<in> set (recursionStack \<sigma>)"
    | (isseen) "c \<notin> set (recursionStack \<sigma>)" "c \<in> set (visited \<sigma>)"
    | (isfresh) "c \<notin> set (recursionStack \<sigma>)" "c \<notin> set (visited \<sigma>)" by blast
  then show ?case
  proof cases
    case isback
    with 1(2,3) show ?thesis by (simp add: dfs_skip_cases)
  next
    case isseen
    with 1(2,3) show ?thesis by (simp add: dfs_skip_cases)
  next
    case isfresh
    have "explored_back_edges (stepsLog (dfs_skip_loop_own g c (neighbors_of g c) (skip_enter c \<sigma>)))
            = skippedEdges_acc (dfs_skip_loop_own g c (neighbors_of g c) (skip_enter c \<sigma>))
        \<and> recorded_skips (stepsLog (dfs_skip_loop_own g c (neighbors_of g c) (skip_enter c \<sigma>)))
            = skippedEdges_acc (dfs_skip_loop_own g c (neighbors_of g c) (skip_enter c \<sigma>))"
      using 1(1)[OF refl _ refl] isfresh 1(2,3)
      by (simp add: set_has_def skip_enter_def[symmetric] last_elem_def)
    with isfresh show ?thesis by (simp add: dfs_skip_cases)
  qed
next
  case (2 g c \<sigma>)
  then show ?case by simp
next
  case (3 g c n ns \<sigma>)
  let ?\<sigma>0 = "log_explore_neighbor c n \<sigma>"
  have a: "explored_back_edges (stepsLog (snd (dfs_skip_own g n ?\<sigma>0))) = skippedEdges_acc (snd (dfs_skip_own g n ?\<sigma>0))
     \<and> recorded_skips (stepsLog (snd (dfs_skip_own g n ?\<sigma>0))) = skippedEdges_acc (snd (dfs_skip_own g n ?\<sigma>0))"
    using 3(3-5) by (intro 3(1)) simp_all
  have "last_elem (pathStack (snd (dfs_skip_own g n ?\<sigma>0))) = Some c"
    using dfs_skip_shape(1)[of g n ?\<sigma>0] 3(4) by simp
  with 3(2) a show ?case by simp
qed

lemma dfs_skip_closed:
  "closed_upto g \<sigma> \<Longrightarrow>
     closed_upto g (snd (dfs_skip_own g c \<sigma>)) \<and> set (visited \<sigma>) \<subseteq> set (visited (snd (dfs_skip_own g c \<sigma>)))
     \<and> c \<in> set (visited (snd (dfs_skip_own g c \<sigma>))) \<union> set (recursionStack \<sigma>)"
  "closed_upto g \<sigma> \<Longrightarrow>
     closed_upto g (dfs_skip_loop_own g c ns \<sigma>) \<and> set (visited \<sigma>) \<subseteq> set (visited (dfs_skip_loop_own g c ns \<sigma>))
     \<and> set ns \<subseteq> set (visited (dfs_skip_loop_own g c ns \<sigma>)) \<union> set (recursionStack \<sigma>)"
proof (induction g c \<sigma> and g c ns \<sigma> rule: dfs_skip_own_dfs_skip_loop_own.induct)
  case (1 g c \<sigma>)
  consider (isback) "c \<in> set (recursionStack \<sigma>)"
    | (isseen) "c \<notin> set (recursionStack \<sigma>)" "c \<in> set (visited \<sigma>)"
    | (isfresh) "c \<notin> set (recursionStack \<sigma>)" "c \<notin> set (visited \<sigma>)" by blast
  then show ?case
  proof cases
    case isback
    with 1(2) show ?thesis by (simp add: dfs_skip_cases closed_upto_def)
  next
    case isseen
    with 1(2) show ?thesis by (simp add: dfs_skip_cases closed_upto_def)
  next
    case isfresh
    let ?\<sigma>2 = "dfs_skip_loop_own g c (neighbors_of g c) (skip_enter c \<sigma>)"
    from 1(2) have "closed_upto g (skip_enter c \<sigma>)" by (auto simp: closed_upto_def)
    with 1(1)[OF refl _ refl] isfresh
    have IH: "closed_upto g ?\<sigma>2" "set (visited \<sigma>) \<subseteq> set (visited ?\<sigma>2)"
      "set (neighbors_of g c) \<subseteq> set (visited ?\<sigma>2) \<union> insert c (set (recursionStack \<sigma>))"
      by (simp_all add: set_has_def skip_enter_def[symmetric])
    have rs: "recursionStack ?\<sigma>2 = set_add (recursionStack \<sigma>) c"
      using dfs_skip_shape(2)[of g c "neighbors_of g c" "skip_enter c \<sigma>"] by simp
    have "closed_upto g (skip_leave c ?\<sigma>2)"
      unfolding closed_upto_def
    proof
      fix v assume "v \<in> set (visited (skip_leave c ?\<sigma>2))"
      then consider "v = c" | "v \<in> set (visited ?\<sigma>2)" by auto
      then show "set (neighbors_of g v) \<subseteq> set (visited (skip_leave c ?\<sigma>2)) \<union> set (recursionStack (skip_leave c ?\<sigma>2))"
      proof cases
        case 1
        with IH(3) isfresh show ?thesis by (auto simp: rs)
      next
        case 2
        with IH(1) isfresh show ?thesis by (auto simp: rs closed_upto_def)
      qed
    qed
    with IH(2) isfresh show ?thesis by (auto simp: dfs_skip_cases)
  qed
next
  case (2 g c \<sigma>)
  then show ?case by simp
next
  case (3 g c n ns \<sigma>)
  let ?\<sigma>0 = "log_explore_neighbor c n \<sigma>"
  let ?\<sigma>1 = "snd (dfs_skip_own g n ?\<sigma>0)"
  from 3(3) have "closed_upto g ?\<sigma>0" by (simp add: closed_upto_def)
  from 3(1)[OF this] have a: "closed_upto g ?\<sigma>1" "set (visited \<sigma>) \<subseteq> set (visited ?\<sigma>1)"
    "n \<in> set (visited ?\<sigma>1) \<union> set (recursionStack \<sigma>)" by simp_all
  have rs: "recursionStack ?\<sigma>1 = recursionStack \<sigma>"
    using dfs_skip_shape(1)[of g n ?\<sigma>0] by simp
  from 3(2)[OF a(1)] a(2,3) show ?case by (auto simp: rs)
qed

lemma dfs_skip_reach:
  "set (visited \<sigma>) \<subseteq> (edges g)\<^sup>* `` {s} \<Longrightarrow> c \<in> (edges g)\<^sup>* `` {s} \<Longrightarrow>
     set (visited (snd (dfs_skip_own g c \<sigma>))) \<subseteq> (edges g)\<^sup>* `` {s}"
  "set (visited \<sigma>) \<subseteq> (edges g)\<^sup>* `` {s} \<Longrightarrow> c \<in> (edges g)\<^sup>* `` {s} \<Longrightarrow>
     set ns \<subseteq> set (neighbors_of g c) \<Longrightarrow>
     set (visited (dfs_skip_loop_own g c ns \<sigma>)) \<subseteq> (edges g)\<^sup>* `` {s}"
proof (induction g c \<sigma> and g c ns \<sigma> rule: dfs_skip_own_dfs_skip_loop_own.induct)
  case (1 g c \<sigma>)
  consider (isback) "c \<in> set (recursionStack \<sigma>)"
    | (isseen) "c \<notin> set (recursionStack \<sigma>)" "c \<in> set (visited \<sigma>)"
    | (isfresh) "c \<notin> set (recursionStack \<sigma>)" "c \<notin> set (visited \<sigma>)" by blast
  then show ?case
  proof cases
    case isback
    with 1(2) show ?thesis by (simp add: dfs_skip_cases)
  next
    case isseen
    with 1(2) show ?thesis by (simp add: dfs_skip_cases)
  next
    case isfresh
    have "set (visited (dfs_skip_loop_own g c (neighbors_of g c) (skip_enter c \<sigma>))) \<subseteq> (edges g)\<^sup>* `` {s}"
      using 1(1)[OF refl _ refl] isfresh 1(2,3)
      by (simp add: set_has_def skip_enter_def[symmetric])
    with isfresh 1(3) show ?thesis by (simp add: dfs_skip_cases)
  qed
next
  case (2 g c \<sigma>)
  then show ?case by simp
next
  case (3 g c n ns \<sigma>)
  from 3(4,5) have "n \<in> (edges g)\<^sup>* `` {s}"
    by (auto simp: edges_def intro: rtrancl_into_rtrancl)
  with 3(1) 3(3) have "set (visited (snd (dfs_skip_own g n (log_explore_neighbor c n \<sigma>)))) \<subseteq> (edges g)\<^sup>* `` {s}"
    by simp
  from 3(2)[OF this 3(4)] 3(5) show ?case by simp
qed

lemma init_sstate_fields [simp]:
  "visited init_sstate = []" "recursionStack init_sstate = []" "pathStack init_sstate = []"
  "skippedEdges_acc init_sstate = []" "stepsLog init_sstate = []"
  by (simp_all add: init_sstate_def)

lemma closed_reachable:
  assumes "\<forall>v \<in> V. set (neighbors_of g v) \<subseteq> V" "s \<in> V" "(s, w) \<in> (edges g)\<^sup>*"
  shows "w \<in> V"
  using assms(3,1,2) by (induction rule: rtrancl_induct) (auto simp: edges_def)

lemma dfs_skip_visits_reachable:
  fixes g s
  defines "\<sigma> \<equiv> snd (dfs_skip_own g s (log_start s init_sstate))"
  shows "set (visited \<sigma>) = (edges g)\<^sup>* `` {s}" "recursionStack \<sigma> = []" "pathStack \<sigma> = []"
    "explored_back_edges (stepsLog \<sigma>) = skippedEdges_acc \<sigma>"
    "recorded_skips (stepsLog \<sigma>) = skippedEdges_acc \<sigma>"
proof -
  let ?\<sigma>0 = "log_start s init_sstate"
  have i: "visited ?\<sigma>0 = []" "recursionStack ?\<sigma>0 = []" "pathStack ?\<sigma>0 = []" "skippedEdges_acc ?\<sigma>0 = []"
    by simp_all
  from dfs_skip_shape(1)[of g s ?\<sigma>0] show rs: "recursionStack \<sigma> = []" "pathStack \<sigma> = []"
    by (simp_all add: \<sigma>_def i)
  have "closed_upto g ?\<sigma>0" by (simp add: closed_upto_def i)
  from dfs_skip_closed(1)[OF this, of s] have c: "closed_upto g \<sigma>" "s \<in> set (visited \<sigma>)"
    by (simp_all add: \<sigma>_def i)
  from c(1) rs have cl: "\<forall>v \<in> set (visited \<sigma>). set (neighbors_of g v) \<subseteq> set (visited \<sigma>)"
    by (simp add: closed_upto_def)
  have sub: "set (visited \<sigma>) \<subseteq> (edges g)\<^sup>* `` {s}"
    unfolding \<sigma>_def by (rule dfs_skip_reach(1)) (simp_all add: i)
  from closed_reachable[OF cl c(2)] sub show "set (visited \<sigma>) = (edges g)\<^sup>* `` {s}"
    by auto
  have e0: "explored_back_edges (stepsLog ?\<sigma>0) = []" "recorded_skips (stepsLog ?\<sigma>0) = []"
    by (simp_all add: log_defs explored_back_edges_def recorded_skips_def)
  from dfs_skip_skipped(1)[of ?\<sigma>0 s g] e0
  show "explored_back_edges (stepsLog \<sigma>) = skippedEdges_acc \<sigma>"
    "recorded_skips (stepsLog \<sigma>) = skippedEdges_acc \<sigma>"
    by (simp_all add: \<sigma>_def i)
qed

lemma log_complete_last [simp]:
  "stepsLog (log_complete s \<sigma>) \<noteq> []"
  "action (last (stepsLog (log_complete s \<sigma>))) = COMPLETE"
  "node (last (stepsLog (log_complete s \<sigma>))) = s"
  "explanation (last (stepsLog (log_complete s \<sigma>))) = ''> exit 0 -- no cycles detected, all paths verified''"
  "visited (last (stepsLog (log_complete s \<sigma>))) = visited \<sigma>"
  "recursionStack (last (stepsLog (log_complete s \<sigma>))) = recursionStack \<sigma>"
  "pathStack (last (stepsLog (log_complete s \<sigma>))) = pathStack \<sigma>"
  "explored_back_edges (stepsLog (log_complete s \<sigma>)) = explored_back_edges (stepsLog \<sigma>)"
  "recorded_skips (stepsLog (log_complete s \<sigma>)) = recorded_skips (stepsLog \<sigma>)"
  by (simp_all add: log_defs) (simp_all add: explored_back_edges_def recorded_skips_def)

lemma log_complete_skipped_last [simp]:
  "stepsLog (log_complete_skipped s n \<sigma>) \<noteq> []"
  "action (last (stepsLog (log_complete_skipped s n \<sigma>))) = COMPLETE"
  "node (last (stepsLog (log_complete_skipped s n \<sigma>))) = s"
  "explanation (last (stepsLog (log_complete_skipped s n \<sigma>))) =
     ''['' @ check_mark @ ''] COMPLETE: traversal finished. '' @ string_of_nat n
          @ '' cycle(s) detected and skipped.''"
  "visited (last (stepsLog (log_complete_skipped s n \<sigma>))) = visited \<sigma>"
  "recursionStack (last (stepsLog (log_complete_skipped s n \<sigma>))) = recursionStack \<sigma>"
  "pathStack (last (stepsLog (log_complete_skipped s n \<sigma>))) = pathStack \<sigma>"
  "explored_back_edges (stepsLog (log_complete_skipped s n \<sigma>)) = explored_back_edges (stepsLog \<sigma>)"
  "recorded_skips (stepsLog (log_complete_skipped s n \<sigma>)) = recorded_skips (stepsLog \<sigma>)"
  by (simp_all add: log_defs) (simp_all add: explored_back_edges_def recorded_skips_def)

lemma explored_from_append [simp]:
  "explored_from v [] = []"
  "explored_from v (a @ b) = explored_from v a @ explored_from v b"
  by (simp_all add: explored_from_def)

lemma explored_from_fields [simp]:
  "explored_from v (stepsLog (skip_enter c \<sigma>)) = explored_from v (stepsLog \<sigma>)"
  "explored_from v (stepsLog (skip_leave c \<sigma>)) = explored_from v (stepsLog \<sigma>)"
  "explored_from v (stepsLog (skip_back c \<sigma>)) = explored_from v (stepsLog \<sigma>)"
  "explored_from v (stepsLog (skip_seen c \<sigma>)) = explored_from v (stepsLog \<sigma>)"
  "explored_from v (stepsLog (log_start c \<sigma>)) = explored_from v (stepsLog \<sigma>)"
  "explored_from v (stepsLog (log_complete c \<sigma>)) = explored_from v (stepsLog \<sigma>)"
  "explored_from v (stepsLog (log_complete_skipped c k \<sigma>)) = explored_from v (stepsLog \<sigma>)"
  "explored_from v (stepsLog (log_explore_neighbor c n \<sigma>)) =
     explored_from v (stepsLog \<sigma>) @ (if v = c then [n] else [])"
  by (simp_all add: skip_enter_def skip_leave_def skip_back_def skip_seen_def log_defs)
     (auto simp: explored_from_def)

lemma dfs_skip_explores:
  "explore_inv g \<sigma> \<Longrightarrow>
     explore_inv g (snd (dfs_skip_own g c \<sigma>))
     \<and> (\<forall>v \<in> set (recursionStack \<sigma>).
           explored_from v (stepsLog (snd (dfs_skip_own g c \<sigma>))) = explored_from v (stepsLog \<sigma>)
           \<and> (v \<in> set (visited (snd (dfs_skip_own g c \<sigma>))) \<longrightarrow> v \<in> set (visited \<sigma>)))"
  "explore_inv g \<sigma> \<Longrightarrow> c \<in> set (recursionStack \<sigma>) \<Longrightarrow> c \<notin> set (visited \<sigma>) \<Longrightarrow>
     explore_inv g (dfs_skip_loop_own g c ns \<sigma>)
     \<and> explored_from c (stepsLog (dfs_skip_loop_own g c ns \<sigma>)) = explored_from c (stepsLog \<sigma>) @ ns
     \<and> (\<forall>v \<in> set (recursionStack \<sigma>).
           (v \<noteq> c \<longrightarrow> explored_from v (stepsLog (dfs_skip_loop_own g c ns \<sigma>)) = explored_from v (stepsLog \<sigma>))
           \<and> (v \<in> set (visited (dfs_skip_loop_own g c ns \<sigma>)) \<longrightarrow> v \<in> set (visited \<sigma>)))"
proof (induction g c \<sigma> and g c ns \<sigma> rule: dfs_skip_own_dfs_skip_loop_own.induct)
  case (1 g c \<sigma>)
  consider (isback) "c \<in> set (recursionStack \<sigma>)"
    | (isseen) "c \<notin> set (recursionStack \<sigma>)" "c \<in> set (visited \<sigma>)"
    | (isfresh) "c \<notin> set (recursionStack \<sigma>)" "c \<notin> set (visited \<sigma>)" by blast
  then show ?case
  proof cases
    case isback
    with 1(2) show ?thesis by (simp add: dfs_skip_cases explore_inv_def)
  next
    case isseen
    with 1(2) show ?thesis by (simp add: dfs_skip_cases explore_inv_def)
  next
    case isfresh
    let ?\<sigma>1 = "skip_enter c \<sigma>"
    let ?\<sigma>2 = "dfs_skip_loop_own g c (neighbors_of g c) ?\<sigma>1"
    from 1(2) isfresh have e1: "explore_inv g ?\<sigma>1" "explored_from c (stepsLog ?\<sigma>1) = []"
      by (auto simp: explore_inv_def)
    from 1(1)[OF refl _ refl] isfresh e1(1)
    have IH: "explore_inv g ?\<sigma>2"
      "explored_from c (stepsLog ?\<sigma>2) = explored_from c (stepsLog ?\<sigma>1) @ neighbors_of g c"
      "\<forall>v \<in> set (recursionStack ?\<sigma>1).
           (v \<noteq> c \<longrightarrow> explored_from v (stepsLog ?\<sigma>2) = explored_from v (stepsLog ?\<sigma>1))
           \<and> (v \<in> set (visited ?\<sigma>2) \<longrightarrow> v \<in> set (visited ?\<sigma>1))"
      by (simp_all add: set_has_def skip_enter_def[symmetric])
    have rs: "recursionStack ?\<sigma>2 = set_add (recursionStack \<sigma>) c"
      using dfs_skip_shape(2)[of g c "neighbors_of g c" ?\<sigma>1] by simp
    have "explore_inv g (skip_leave c ?\<sigma>2)"
      using IH(1,2) e1(2) isfresh by (auto simp: explore_inv_def rs)
    moreover have "\<forall>v \<in> set (recursionStack \<sigma>).
           explored_from v (stepsLog (skip_leave c ?\<sigma>2)) = explored_from v (stepsLog \<sigma>)
           \<and> (v \<in> set (visited (skip_leave c ?\<sigma>2)) \<longrightarrow> v \<in> set (visited \<sigma>))"
      using IH(3) isfresh by auto
    ultimately show ?thesis using isfresh by (simp add: dfs_skip_cases)
  qed
next
  case (2 g c \<sigma>)
  then show ?case by simp
next
  case (3 g c n ns \<sigma>)
  let ?\<sigma>0 = "log_explore_neighbor c n \<sigma>"
  let ?\<sigma>1 = "snd (dfs_skip_own g n ?\<sigma>0)"
  from 3(3-5) have "explore_inv g ?\<sigma>0" by (auto simp: explore_inv_def)
  from 3(1)[OF this] have a: "explore_inv g ?\<sigma>1"
    "\<forall>v \<in> set (recursionStack \<sigma>). explored_from v (stepsLog ?\<sigma>1) = explored_from v (stepsLog ?\<sigma>0)
           \<and> (v \<in> set (visited ?\<sigma>1) \<longrightarrow> v \<in> set (visited \<sigma>))" by simp_all
  have rs: "recursionStack ?\<sigma>1 = recursionStack \<sigma>"
    using dfs_skip_shape(1)[of g n ?\<sigma>0] by simp
  from a(2) 3(4,5) have c: "c \<in> set (recursionStack ?\<sigma>1)" "c \<notin> set (visited ?\<sigma>1)"
    by (auto simp: rs)
  from 3(2)[OF a(1) c] a(2) 3(4) show ?case by (auto simp: rs)
qed

lemma dfs_skip_explores_all:
  assumes "v \<in> set (visited (snd (dfs_skip_own g s (log_start s init_sstate))))"
  shows "explored_from v (stepsLog (snd (dfs_skip_own g s (log_start s init_sstate)))) = neighbors_of g v"
proof -
  have "explore_inv g (log_start s init_sstate)" by (simp add: explore_inv_def)
  from dfs_skip_explores(1)[OF this, of s] assms show ?thesis by (simp add: explore_inv_def)
qed

text \<open>
  On own properties. From a start node that is a key, the skip-and-continue detector runs its
  traversal to the end: the trace ends with a \<open>COMPLETE\<close> record taken with an empty
  recursion stack and an empty path, whose visited set is the set of nodes reachable from
  the start node, and from every such node every neighbour was explored, in the order of
  the successor array. The back-edges met are exactly the edges the \<open>SKIP_CYCLE\<close> records
  hold. When there is none, the result is \<open>found = False\<close>; otherwise it is
  \<open>found = True\<close> with \<open>handled = True\<close>, \<open>skippedEdges\<close> lists the back-edges met in
  the order met, and the message of the \<open>COMPLETE\<close> record gives their number.
\<close>

theorem skip_and_continue_completes:
  assumes "startNode \<in> fmdom' graphData"
  shows "\<exists>ss. steps (runDetectionWithSteps_skip_own graphData startNode) = Some ss \<and> ss \<noteq> []
     \<and> action (last ss) = COMPLETE \<and> node (last ss) = startNode
     \<and> recursionStack (last ss) = [] \<and> pathStack (last ss) = []
     \<and> set (visited (last ss)) = (edges graphData)\<^sup>* `` {startNode}
     \<and> (\<forall>v \<in> (edges graphData)\<^sup>* `` {startNode}. explored_from v ss = neighbors_of graphData v)
     \<and> recorded_skips ss = explored_back_edges ss
     \<and> (if explored_back_edges ss = []
         then runDetectionWithSteps_skip_own graphData startNode = (plain_result False)\<lparr>steps := Some ss\<rparr>
           \<and> explanation (last ss) = ''> exit 0 -- no cycles detected, all paths verified''
         else runDetectionWithSteps_skip_own graphData startNode =
             (plain_result True)\<lparr>handled := Some True,
                                  skippedEdges := Some (explored_back_edges ss), steps := Some ss\<rparr>
           \<and> explanation (last ss) =
               ''['' @ check_mark @ ''] COMPLETE: traversal finished. ''
                 @ string_of_nat (length (explored_back_edges ss))
                 @ '' cycle(s) detected and skipped.'')"
proof -
  from assms obtain ns where key: "fmlookup graphData startNode = Some ns"
    by (auto simp: fmlookup_dom'_iff)
  let ?\<sigma> = "snd (dfs_skip_own graphData startNode (log_start startNode init_sstate))"
  note f = dfs_skip_visits_reachable[of graphData startNode]
  have ex: "\<forall>v \<in> (edges graphData)\<^sup>* `` {startNode}. explored_from v (stepsLog ?\<sigma>) = neighbors_of graphData v"
    using dfs_skip_explores_all[of _ graphData startNode] f(1) by blast
  show ?thesis
  proof (cases "skippedEdges_acc ?\<sigma> = []")
    case True
    let ?ss = "stepsLog (log_complete startNode ?\<sigma>)"
    have "runDetectionWithSteps_skip_own graphData startNode = (plain_result False)\<lparr>steps := Some ?ss\<rparr>"
      using key True by (simp add: runDetectionWithSteps_skip_own_def Let_def)
    with f True ex show ?thesis
      by (intro exI[of _ ?ss]) (simp add: plain_result_def)
  next
    case False
    let ?ss = "stepsLog (log_complete_skipped startNode (length (skippedEdges_acc ?\<sigma>)) ?\<sigma>)"
    have "runDetectionWithSteps_skip_own graphData startNode =
        (plain_result True)\<lparr>handled := Some True, skippedEdges := Some (skippedEdges_acc ?\<sigma>), steps := Some ?ss\<rparr>"
      using key False by (simp add: runDetectionWithSteps_skip_own_def Let_def)
    with f False ex show ?thesis
      by (intro exI[of _ ?ss]) (simp add: plain_result_def)
  qed
qed

theorem skip_and_continue_completes_witness:
  "''1'' \<in> fmdom' scenario1
   \<and> found (runDetectionWithSteps_skip_own scenario1 ''1'') = True
   \<and> handled (runDetectionWithSteps_skip_own scenario1 ''1'') = Some True
   \<and> skippedEdges (runDetectionWithSteps_skip_own scenario1 ''1'')
       = Some [\<lparr>source = Some ''3'', target = ''2''\<rparr>, \<lparr>source = Some ''3'', target = ''1''\<rparr>]
   \<and> (\<exists>ss. steps (runDetectionWithSteps_skip_own scenario1 ''1'') = Some ss
         \<and> action (last ss) = COMPLETE
         \<and> explored_back_edges ss = [\<lparr>source = Some ''3'', target = ''2''\<rparr>, \<lparr>source = Some ''3'', target = ''1''\<rparr>]
         \<and> explanation (last ss) =
               ''['' @ check_mark @ ''] COMPLETE: traversal finished. 2 cycle(s) detected and skipped.'')"
proof -
  have key: "''1'' \<in> fmdom' scenario1"
    by (simp add: scenario1_def)
  have run: "skippedEdges (runDetectionWithSteps_skip_own scenario1 ''1'')
       = Some [\<lparr>source = Some ''3'', target = ''2''\<rparr>, \<lparr>source = Some ''3'', target = ''1''\<rparr>]"
    by code_simp
  have two: "string_of_nat 2 = ''2''"
    by code_simp
  from skip_and_continue_completes[OF key] obtain ss where
    ss: "steps (runDetectionWithSteps_skip_own scenario1 ''1'') = Some ss" "action (last ss) = COMPLETE"
      "if explored_back_edges ss = []
         then runDetectionWithSteps_skip_own scenario1 ''1'' = (plain_result False)\<lparr>steps := Some ss\<rparr>
           \<and> explanation (last ss) = ''> exit 0 -- no cycles detected, all paths verified''
         else runDetectionWithSteps_skip_own scenario1 ''1'' =
             (plain_result True)\<lparr>handled := Some True,
                                  skippedEdges := Some (explored_back_edges ss), steps := Some ss\<rparr>
           \<and> explanation (last ss) =
               ''['' @ check_mark @ ''] COMPLETE: traversal finished. ''
                 @ string_of_nat (length (explored_back_edges ss))
                 @ '' cycle(s) detected and skipped.''"
    by blast
  have ne: "explored_back_edges ss \<noteq> []"
  proof
    assume "explored_back_edges ss = []"
    with ss(3) have "skippedEdges (runDetectionWithSteps_skip_own scenario1 ''1'') = None"
      by (simp add: plain_result_def)
    with run show False by simp
  qed
  with ss(3) have r: "runDetectionWithSteps_skip_own scenario1 ''1'' =
             (plain_result True)\<lparr>handled := Some True,
                                  skippedEdges := Some (explored_back_edges ss), steps := Some ss\<rparr>"
    and e: "explanation (last ss) =
               ''['' @ check_mark @ ''] COMPLETE: traversal finished. ''
                 @ string_of_nat (length (explored_back_edges ss))
                 @ '' cycle(s) detected and skipped.''"
    by simp_all
  from r run have b: "explored_back_edges ss = [\<lparr>source = Some ''3'', target = ''2''\<rparr>, \<lparr>source = Some ''3'', target = ''1''\<rparr>]"
    by simp
  from b have "length (explored_back_edges ss) = 2" by simp
  with e have "explanation (last ss) =
               ''['' @ check_mark @ ''] COMPLETE: traversal finished. ''
                 @ string_of_nat 2 @ '' cycle(s) detected and skipped.''"
    by (simp only:)
  then have e': "explanation (last ss) =
               ''['' @ check_mark @ ''] COMPLETE: traversal finished. 2 cycle(s) detected and skipped.''"
    by (simp add: two)
  from r have f: "found (runDetectionWithSteps_skip_own scenario1 ''1'') = True"
     "handled (runDetectionWithSteps_skip_own scenario1 ''1'') = Some True"
    by (simp_all add: plain_result_def)
  from key f run ss(1,2) b e' show ?thesis by blast
qed

section \<open>removeCycles: the graph returned\<close>

lemma fmlookup_prune [simp]:
  "fmlookup (prune es g) v = map_option (filter (\<lambda>t. \<lparr>source = v, target = t\<rparr> \<notin> set es)) (fmlookup g v)"
  by (simp add: prune_def)

lemma neighbors_of_prune [simp]:
  "neighbors_of (prune es g) v = filter (\<lambda>t. \<lparr>source = v, target = t\<rparr> \<notin> set es) (neighbors_of g v)"
  by (simp add: neighbors_of_def split: option.splits)

lemma prune_Nil [simp]: "prune [] g = g"
proof (rule fmap_ext)
  fix x show "fmlookup (prune [] g) x = fmlookup g x"
    by (cases "fmlookup g x") simp_all
qed

lemma prune_append: "prune (a @ b) g = prune b (prune a g)"
  by (rule fmap_ext) (auto simp: option.map_comp comp_def intro!: map_option_cong filter_cong)

lemma edges_prune: "edges (prune es g) \<subseteq> edges g"
  by (auto simp: edges_def)

lemma rtrancl_edges_prune: "(a, b) \<in> (edges (prune es g))\<^sup>* \<Longrightarrow> (a, b) \<in> (edges g)\<^sup>*"
  using rtrancl_mono[OF edges_prune] by blast

lemma finished_order_prune: "finished_order g vs \<Longrightarrow> finished_order (prune es g) vs"
  by (fastforce simp: finished_order_def)

lemma neighbors_of_lookup:
  "neighbors_of g c \<noteq> [] \<Longrightarrow> fmlookup g c = Some (neighbors_of g c)"
  by (auto simp: neighbors_of_def split: option.splits)

lemma neighbors_of_splice_at:
  "neighbors_of (splice_at g c i) v =
     (if v = c then take (nat i) (neighbors_of g c) @ drop (Suc (nat i)) (neighbors_of g c)
      else neighbors_of g v)"
  by (auto simp: splice_at_def neighbors_of_def split: option.splits)

lemma fmlookup_splice_at_other: "v \<noteq> c \<Longrightarrow> fmlookup (splice_at g c i) v = fmlookup g v"
  by (auto simp: splice_at_def split: option.splits)

lemma fmlookup_splice_at_same:
  "fmlookup (splice_at g c i) c = map_option (\<lambda>ns. take (nat i) ns @ drop (Suc (nat i)) ns) (fmlookup g c)"
  by (auto simp: splice_at_def split: option.splits)

lemma finished_order_splice_at:
  "finished_order g vs \<Longrightarrow> finished_order (splice_at g c i) vs"
  unfolding finished_order_def neighbors_of_splice_at
  by (auto dest: in_set_takeD in_set_dropD)

lemma edges_splice_at: "edges (splice_at g c i) \<subseteq> edges g"
  by (auto simp: edges_def neighbors_of_splice_at dest: in_set_takeD in_set_dropD split: if_splits)

lemma string_at_nth: "0 \<le> i \<Longrightarrow> i < int (length xs) \<Longrightarrow> string_at xs i = xs ! nat i"
  by (simp add: string_at_def)

lemma edge_post_weaken:
  assumes "edge_post c \<sigma>a \<sigma>' e" "edges (safeGraph_st \<sigma>a) \<subseteq> edges (safeGraph_st \<sigma>)"
    "set (visited \<sigma>) \<subseteq> set (visited \<sigma>a)" "recursionStack \<sigma>a = recursionStack \<sigma>"
  shows "edge_post c \<sigma> \<sigma>' e"
proof -
  have r: "(edges (safeGraph_st \<sigma>a))\<^sup>* \<subseteq> (edges (safeGraph_st \<sigma>))\<^sup>*"
    using assms(2) by (rule rtrancl_mono)
  from assms(1,2) have "target e \<in> set (neighbors_of (safeGraph_st \<sigma>) (source e))"
    by (auto simp: edge_post_def edges_def)
  with assms(1,3,4) r show ?thesis
    unfolding edge_post_def by auto
qed

lemma edge_post_child:
  assumes "edge_post t \<sigma> \<sigma>b e" "(c, t) \<in> edges (safeGraph_st \<sigma>)"
    "set (visited \<sigma>b) \<subseteq> set (visited \<sigma>')" "t \<in> set (visited \<sigma>b)" "t \<notin> set (visited \<sigma>)"
  shows "edge_post c \<sigma> \<sigma>' e"
proof -
  from assms(1,2) have "(c, source e) \<in> (edges (safeGraph_st \<sigma>))\<^sup>*"
    by (auto simp: edge_post_def intro: converse_rtrancl_into_rtrancl)
  with assms show ?thesis
    unfolding edge_post_def by auto
qed

lemma loop_nil:
  assumes "loop_pre c (- 1) \<sigma>"
  shows "loop_post c (- 1) \<sigma> \<sigma> []"
proof -
  from assms have clean: "\<forall>t \<in> set (neighbors_of (safeGraph_st \<sigma>) c). t \<notin> set (recursionStack \<sigma>)"
    by (simp add: loop_pre_def)
  then have "filter (\<lambda>t. t \<notin> set (recursionStack \<sigma>)) (neighbors_of (safeGraph_st \<sigma>) c)
      = neighbors_of (safeGraph_st \<sigma>) c"
    by (simp add: filter_id_conv)
  moreover have "map_option (filter (\<lambda>t. True)) x = x" for x :: "node list option"
    by (cases x) simp_all
  ultimately show ?thesis
    using assms by (auto simp: loop_post_def step_post_def loop_pre_def)
qed

lemma fmdom'_splice_at [simp]: "fmdom' (splice_at g c i) = fmdom' g"
  by (auto simp: splice_at_def fmdom'I split: option.splits)

lemma fmdom'_prune [simp]: "fmdom' (prune es g) = fmdom' g"
  by (auto simp: fmlookup_dom'_iff)

lemma take_nat_Suc:
  assumes "0 \<le> i" "i < int (length xs)"
  shows "take (nat (i + 1)) xs = take (nat i) xs @ [xs ! nat i]"
    "drop (nat i) xs = xs ! nat i # drop (nat (i + 1)) xs"
    "xs = take (nat i) xs @ xs ! nat i # drop (Suc (nat i)) xs"
    "nat (i + 1) = Suc (nat i)" "nat (i - 1 + 1) = nat i"
proof -
  from assms have n: "nat i < length xs" and s: "nat (i + 1) = Suc (nat i)" by auto
  show "take (nat (i + 1)) xs = take (nat i) xs @ [xs ! nat i]"
    using n by (simp add: s take_Suc_conv_app_nth)
  show "drop (nat i) xs = xs ! nat i # drop (nat (i + 1)) xs"
    using n by (simp add: s Cons_nth_drop_Suc)
  show "xs = take (nat i) xs @ xs ! nat i # drop (Suc (nat i)) xs"
    using n by (rule id_take_nth_drop)
  show "nat (i + 1) = Suc (nat i)" by (rule s)
  show "nat (i - 1 + 1) = nat i" by simp
qed

lemma loop_old:
  assumes pre: "loop_pre c i \<sigma>" "0 \<le> i"
    and t: "string_at (neighbors_of (safeGraph_st \<sigma>) c) i \<notin> set (recursionStack \<sigma>)"
      "string_at (neighbors_of (safeGraph_st \<sigma>) c) i \<in> set (visited \<sigma>)"
  shows "loop_pre c (i - 1) \<sigma>"
    and "loop_post c (i - 1) \<sigma> \<sigma>' new \<Longrightarrow> loop_post c i \<sigma> \<sigma>' new"
proof -
  let ?xs = "neighbors_of (safeGraph_st \<sigma>) c"
  from pre have i: "0 \<le> i" "i < int (length ?xs)" by (simp_all add: loop_pre_def)
  note tk = take_nat_Suc[OF i]
  from t i have t': "?xs ! nat i \<notin> set (recursionStack \<sigma>)" "?xs ! nat i \<in> set (visited \<sigma>)"
    by (simp_all add: string_at_nth)
  from pre t' show "loop_pre c (i - 1) \<sigma>"
    by (auto simp: loop_pre_def tk(2,5))
  assume p: "loop_post c (i - 1) \<sigma> \<sigma>' new"
  then have "set (visited \<sigma>) \<subseteq> set (visited \<sigma>')" by (simp add: loop_post_def step_post_def)
  with p t' show "loop_post c i \<sigma> \<sigma>' new"
    unfolding loop_post_def tk(1,5) by auto
qed

lemma loop_back:
  assumes pre: "loop_pre c i \<sigma>" "0 \<le> i"
    and t: "string_at (neighbors_of (safeGraph_st \<sigma>) c) i \<in> set (recursionStack \<sigma>)"
  defines "t \<equiv> string_at (neighbors_of (safeGraph_st \<sigma>) c) i"
  defines "\<sigma>a \<equiv> \<sigma>\<lparr>safeGraph_st := splice_at (safeGraph_st \<sigma>) c i,
                      removedEdges_st := removedEdges_st \<sigma> @ [\<lparr>source = c, target = t\<rparr>]\<rparr>"
  shows "loop_pre c (i - 1) \<sigma>a"
    and "loop_post c (i - 1) \<sigma>a \<sigma>' new \<Longrightarrow> loop_post c i \<sigma> \<sigma>' (\<lparr>source = c, target = t\<rparr> # new)"
proof -
  let ?xs = "neighbors_of (safeGraph_st \<sigma>) c"
  let ?xa = "take (nat i) ?xs @ drop (Suc (nat i)) ?xs"
  from pre have i: "0 \<le> i" "i < int (length ?xs)" by (simp_all add: loop_pre_def)
  note tk = take_nat_Suc[OF i]
  from t i have t': "t = ?xs ! nat i" "t \<in> set (recursionStack \<sigma>)" "t \<in> set ?xs"
    by (simp_all add: t_def string_at_nth)
  have xa: "neighbors_of (splice_at (safeGraph_st \<sigma>) c i) c = ?xa"
    by (simp add: neighbors_of_splice_at)
  have f: "visited \<sigma>a = visited \<sigma>" "recursionStack \<sigma>a = recursionStack \<sigma>" "pathStack \<sigma>a = pathStack \<sigma>"
    "removedEdges_st \<sigma>a = removedEdges_st \<sigma> @ [\<lparr>source = c, target = t\<rparr>]"
    "safeGraph_st \<sigma>a = splice_at (safeGraph_st \<sigma>) c i"
    by (simp_all add: \<sigma>a_def)
  have len: "length ?xa = length ?xs - 1" using i by auto
  have dr: "drop (nat i) ?xa = drop (Suc (nat i)) ?xs" "take (nat i) ?xa = take (nat i) ?xs"
    using i by auto
  from pre have clean: "\<forall>t \<in> set (drop (Suc (nat i)) ?xs). t \<notin> set (recursionStack \<sigma>)"
    by (simp add: loop_pre_def tk(4))
  from pre i len clean show "loop_pre c (i - 1) \<sigma>a"
    unfolding loop_pre_def f xa tk(5) dr
    by (auto simp: finished_order_splice_at)
  assume p: "loop_post c (i - 1) \<sigma>a \<sigma>' new"
  have e1: "edge_post c \<sigma> \<sigma>' \<lparr>source = c, target = t\<rparr>"
    using t' by (simp add: edge_post_def)
  have e2: "edge_post c \<sigma> \<sigma>' e" if "e \<in> set new" for e
  proof (rule edge_post_weaken)
    from p that show "edge_post c \<sigma>a \<sigma>' e" by (simp add: loop_post_def step_post_def)
  qed (simp_all add: f edges_splice_at)
  from p e1 e2 have sp: "step_post c \<sigma> \<sigma>' (\<lparr>source = c, target = t\<rparr> # new)"
    by (auto simp: loop_post_def step_post_def f)
  have fl: "filter (\<lambda>t. t \<notin> set (recursionStack \<sigma>)) ?xa = filter (\<lambda>t. t \<notin> set (recursionStack \<sigma>)) ?xs"
    using t'(1,2) by (subst (2) tk(3)) simp
  from p have "neighbors_of (safeGraph_st \<sigma>') c
      = filter (\<lambda>t. t \<notin> set (recursionStack \<sigma>a)) (neighbors_of (safeGraph_st \<sigma>a) c)"
    unfolding loop_post_def by blast
  then have a: "neighbors_of (safeGraph_st \<sigma>') c = filter (\<lambda>t. t \<notin> set (recursionStack \<sigma>)) ?xs"
    unfolding f xa fl .
  have b: "fmlookup (safeGraph_st \<sigma>') v =
      map_option (filter (\<lambda>u. \<lparr>source = v, target = u\<rparr> \<notin> set (\<lparr>source = c, target = t\<rparr> # new))) (fmlookup (safeGraph_st \<sigma>) v)"
    if "v \<noteq> c" for v
    using p that by (simp add: loop_post_def f fmlookup_splice_at_other)
  from p have d: "fmdom' (safeGraph_st \<sigma>') = fmdom' (safeGraph_st \<sigma>)"
    by (simp add: loop_post_def f)
  from p have ci: "\<lparr>source = c, target = u\<rparr> \<in> set (\<lparr>source = c, target = t\<rparr> # new) \<longleftrightarrow>
      u \<in> set (take (nat (i + 1)) ?xs) \<and> u \<in> set (recursionStack \<sigma>)" for u
    unfolding loop_post_def f xa tk(5) dr tk(1) using t'(1,2) by auto
  from p have vi: "\<forall>u \<in> set (take (nat (i + 1)) ?xs). u \<notin> set (recursionStack \<sigma>) \<longrightarrow> u \<in> set (visited \<sigma>')"
    unfolding loop_post_def f xa tk(5) dr tk(1) using t'(1,2) by auto
  from sp a b d ci vi show "loop_post c i \<sigma> \<sigma>' (\<lparr>source = c, target = t\<rparr> # new)"
    unfolding loop_post_def by blast
qed

lemma loop_fresh:
  assumes pre: "loop_pre c i \<sigma>" "0 \<le> i"
    and t: "string_at (neighbors_of (safeGraph_st \<sigma>) c) i \<notin> set (recursionStack \<sigma>)"
      "string_at (neighbors_of (safeGraph_st \<sigma>) c) i \<notin> set (visited \<sigma>)"
    and d: "dfs_post (string_at (neighbors_of (safeGraph_st \<sigma>) c) i) \<sigma> \<sigma>b newb"
  shows "loop_pre c (i - 1) \<sigma>b"
    and "loop_post c (i - 1) \<sigma>b \<sigma>' newq \<Longrightarrow> loop_post c i \<sigma> \<sigma>' (newb @ newq)"
proof -
  let ?xs = "neighbors_of (safeGraph_st \<sigma>) c"
  define t where "t = ?xs ! nat i"
  from pre have i: "0 \<le> i" "i < int (length ?xs)" by (simp_all add: loop_pre_def)
  note tk = take_nat_Suc[OF i]
  from t d i have t': "t \<notin> set (recursionStack \<sigma>)" "t \<notin> set (visited \<sigma>)" "t \<in> set ?xs"
    and d': "dfs_post t \<sigma> \<sigma>b newb"
    by (simp_all add: t_def string_at_nth)
  from pre have c: "c \<in> set (recursionStack \<sigma>)" by (simp add: loop_pre_def)
  with t' have ct: "c \<noteq> t" by auto
  from d' have sb: "pathStack \<sigma>b = pathStack \<sigma>" "recursionStack \<sigma>b = recursionStack \<sigma>"
    "set (visited \<sigma>) \<subseteq> set (visited \<sigma>b)" "set (visited \<sigma>b) \<inter> set (recursionStack \<sigma>) = {}"
    "removedEdges_st \<sigma>b = removedEdges_st \<sigma> @ newb"
    "finished_order (safeGraph_st \<sigma>b) (visited \<sigma>b)"
    "\<forall>e \<in> set newb. edge_post t \<sigma> \<sigma>b e" "t \<in> set (visited \<sigma>b)"
    "safeGraph_st \<sigma>b = prune newb (safeGraph_st \<sigma>)"
    unfolding dfs_post_def step_post_def by blast+
  from sb(4) c have cv: "c \<notin> set (visited \<sigma>b)" by auto
  have nosrc: "\<lparr>source = c, target = u\<rparr> \<notin> set newb" for u
  proof
    assume "\<lparr>source = c, target = u\<rparr> \<in> set newb"
    with sb(7) have "edge_post t \<sigma> \<sigma>b \<lparr>source = c, target = u\<rparr>" by blast
    with ct cv show False by (simp add: edge_post_def)
  qed
  have xb: "neighbors_of (safeGraph_st \<sigma>b) c = ?xs"
    by (simp add: sb(9) nosrc)
  from pre t' show "loop_pre c (i - 1) \<sigma>b"
    unfolding loop_pre_def xb sb(2) tk(5) tk(2) t_def[symmetric]
    using sb(4,6) by auto
  assume p: "loop_post c (i - 1) \<sigma>b \<sigma>' newq"
  then have q: "pathStack \<sigma>' = pathStack \<sigma>b" "recursionStack \<sigma>' = recursionStack \<sigma>b"
    "set (visited \<sigma>b) \<subseteq> set (visited \<sigma>')" "set (visited \<sigma>') \<inter> set (recursionStack \<sigma>b) = {}"
    "removedEdges_st \<sigma>' = removedEdges_st \<sigma>b @ newq"
    "finished_order (safeGraph_st \<sigma>') (visited \<sigma>')"
    "\<forall>e \<in> set newq. edge_post c \<sigma>b \<sigma>' e"
    unfolding loop_post_def step_post_def by blast+
  have ct_edge: "(c, t) \<in> edges (safeGraph_st \<sigma>)"
    using t'(3) by (simp add: edges_def)
  have e1: "edge_post c \<sigma> \<sigma>' e" if "e \<in> set newb" for e
    using sb(7) that ct_edge q(3) sb(8) t'(2) by (intro edge_post_child[of t \<sigma> \<sigma>b e c \<sigma>']) auto
  have e2: "edge_post c \<sigma> \<sigma>' e" if "e \<in> set newq" for e
  proof (rule edge_post_weaken)
    from q(7) that show "edge_post c \<sigma>b \<sigma>' e" by blast
  qed (simp_all add: sb edges_prune)
  from e1 e2 sb q have sp: "step_post c \<sigma> \<sigma>' (newb @ newq)"
    unfolding step_post_def by auto
  from p have "neighbors_of (safeGraph_st \<sigma>') c
      = filter (\<lambda>t. t \<notin> set (recursionStack \<sigma>b)) (neighbors_of (safeGraph_st \<sigma>b) c)"
    unfolding loop_post_def by blast
  then have a: "neighbors_of (safeGraph_st \<sigma>') c = filter (\<lambda>t. t \<notin> set (recursionStack \<sigma>)) ?xs"
    unfolding xb sb(2) .
  have b: "fmlookup (safeGraph_st \<sigma>') v =
      map_option (filter (\<lambda>u. \<lparr>source = v, target = u\<rparr> \<notin> set (newb @ newq))) (fmlookup (safeGraph_st \<sigma>) v)"
    if "v \<noteq> c" for v
  proof -
    from p that have "fmlookup (safeGraph_st \<sigma>') v =
      map_option (filter (\<lambda>u. \<lparr>source = v, target = u\<rparr> \<notin> set newq)) (fmlookup (safeGraph_st \<sigma>b) v)"
      unfolding loop_post_def by blast
    then show ?thesis
      by (cases "fmlookup (safeGraph_st \<sigma>) v") (auto simp: sb(9) intro: filter_cong)
  qed
  from p have dm: "fmdom' (safeGraph_st \<sigma>') = fmdom' (safeGraph_st \<sigma>)"
    by (simp add: loop_post_def sb(9))
  from p have "\<lparr>source = c, target = u\<rparr> \<in> set newq \<longleftrightarrow>
      u \<in> set (take (nat (i - 1 + 1)) (neighbors_of (safeGraph_st \<sigma>b) c)) \<and> u \<in> set (recursionStack \<sigma>b)" for u
    unfolding loop_post_def by blast
  then have ci: "\<lparr>source = c, target = u\<rparr> \<in> set (newb @ newq) \<longleftrightarrow>
      u \<in> set (take (nat (i + 1)) ?xs) \<and> u \<in> set (recursionStack \<sigma>)" for u
    unfolding xb sb(2) tk(5) tk(1) t_def[symmetric] using nosrc t'(1) by auto
  from p have "\<forall>u \<in> set (take (nat (i - 1 + 1)) (neighbors_of (safeGraph_st \<sigma>b) c)).
      u \<notin> set (recursionStack \<sigma>b) \<longrightarrow> u \<in> set (visited \<sigma>')"
    unfolding loop_post_def by blast
  then have vi: "\<forall>u \<in> set (take (nat (i + 1)) ?xs). u \<notin> set (recursionStack \<sigma>) \<longrightarrow> u \<in> set (visited \<sigma>')"
    unfolding xb sb(2) tk(5) tk(1) t_def[symmetric] using sb(8) q(3) by auto
  from sp a b dm ci vi show "loop_post c i \<sigma> \<sigma>' (newb @ newq)"
    unfolding loop_post_def by blast
qed

lemma dfs_enter:
  assumes "c \<notin> set (recursionStack \<sigma>)" "c \<notin> set (visited \<sigma>)"
    "set (visited \<sigma>) \<inter> set (recursionStack \<sigma>) = {}" "finished_order (safeGraph_st \<sigma>) (visited \<sigma>)"
  defines "\<sigma>1 \<equiv> \<sigma>\<lparr>recursionStack := set_add (recursionStack \<sigma>) c, pathStack := pathStack \<sigma> @ [c]\<rparr>"
  defines "i0 \<equiv> int (length (neighbors_of (safeGraph_st \<sigma>) c)) - 1"
  shows "loop_pre c i0 \<sigma>1"
    and "loop_post c i0 \<sigma>1 \<sigma>2 new \<Longrightarrow>
      dfs_post c \<sigma> (\<sigma>2\<lparr>recursionStack := set_delete (recursionStack \<sigma>2) c,
                           pathStack := butlast (pathStack \<sigma>2),
                           visited := set_add (visited \<sigma>2) c\<rparr>) new"
proof -
  let ?xs = "neighbors_of (safeGraph_st \<sigma>) c"
  let ?\<sigma>' = "\<sigma>2\<lparr>recursionStack := set_delete (recursionStack \<sigma>2) c,
                           pathStack := butlast (pathStack \<sigma>2),
                           visited := set_add (visited \<sigma>2) c\<rparr>"
  have f: "visited \<sigma>1 = visited \<sigma>" "recursionStack \<sigma>1 = recursionStack \<sigma> @ [c]"
    "pathStack \<sigma>1 = pathStack \<sigma> @ [c]" "safeGraph_st \<sigma>1 = safeGraph_st \<sigma>"
    "removedEdges_st \<sigma>1 = removedEdges_st \<sigma>"
    using assms(1) by (simp_all add: \<sigma>1_def set_add_def)
  have n: "nat (i0 + 1) = length ?xs" by (simp add: i0_def)
  from assms(1-4) show "loop_pre c i0 \<sigma>1"
    unfolding loop_pre_def f n by (auto simp: i0_def)
  assume p: "loop_post c i0 \<sigma>1 \<sigma>2 new"
  then have q: "pathStack \<sigma>2 = pathStack \<sigma>1" "recursionStack \<sigma>2 = recursionStack \<sigma>1"
    "set (visited \<sigma>1) \<subseteq> set (visited \<sigma>2)" "set (visited \<sigma>2) \<inter> set (recursionStack \<sigma>1) = {}"
    "removedEdges_st \<sigma>2 = removedEdges_st \<sigma>1 @ new"
    "finished_order (safeGraph_st \<sigma>2) (visited \<sigma>2)"
    "\<forall>e \<in> set new. edge_post c \<sigma>1 \<sigma>2 e"
    unfolding loop_post_def step_post_def by blast+
  from p have a: "neighbors_of (safeGraph_st \<sigma>2) c = filter (\<lambda>t. t \<notin> set (recursionStack \<sigma>1)) ?xs"
    unfolding loop_post_def f(4) by blast
  from p have b: "\<forall>v. v \<noteq> c \<longrightarrow> fmlookup (safeGraph_st \<sigma>2) v
          = map_option (filter (\<lambda>t. \<lparr>source = v, target = t\<rparr> \<notin> set new)) (fmlookup (safeGraph_st \<sigma>) v)"
    unfolding loop_post_def f(4) by blast
  from p have dm: "fmdom' (safeGraph_st \<sigma>2) = fmdom' (safeGraph_st \<sigma>)"
    unfolding loop_post_def f(4) by blast
  from p have ci: "\<lparr>source = c, target = t\<rparr> \<in> set new \<longleftrightarrow> t \<in> set ?xs \<and> t \<in> set (recursionStack \<sigma>1)" for t
    unfolding loop_post_def f(4) n by simp
  from p have vi: "\<forall>t \<in> set ?xs. t \<notin> set (recursionStack \<sigma>1) \<longrightarrow> t \<in> set (visited \<sigma>2)"
    unfolding loop_post_def f(4) n by simp
  have fl: "filter (\<lambda>t. t \<notin> set (recursionStack \<sigma>1)) ?xs = filter (\<lambda>t. \<lparr>source = c, target = t\<rparr> \<notin> set new) ?xs"
    by (rule filter_cong) (simp_all add: ci)
  have g: "safeGraph_st \<sigma>2 = prune new (safeGraph_st \<sigma>)"
  proof (rule fmap_ext)
    fix v
    show "fmlookup (safeGraph_st \<sigma>2) v = fmlookup (prune new (safeGraph_st \<sigma>)) v"
    proof (cases "v = c")
      case False
      with b show ?thesis by simp
    next
      case True
      show ?thesis
      proof (cases "fmlookup (safeGraph_st \<sigma>) c")
        case None
        then have "c \<notin> fmdom' (safeGraph_st \<sigma>2)" by (simp add: dm fmdom'_notI)
        with None True show ?thesis by (simp add: fmdom'_notD)
      next
        case (Some xs)
        then have "c \<in> fmdom' (safeGraph_st \<sigma>2)" by (simp add: dm fmdom'I)
        then obtain ys where ys: "fmlookup (safeGraph_st \<sigma>2) c = Some ys"
          by (auto simp: fmlookup_dom'_iff)
        with a fl Some have "ys = filter (\<lambda>t. \<lparr>source = c, target = t\<rparr> \<notin> set new) xs"
          by (simp add: neighbors_of_def)
        with ys Some True show ?thesis by simp
      qed
    qed
  qed
  have nb: "set (neighbors_of (safeGraph_st \<sigma>2) c) \<subseteq> set (visited \<sigma>2)"
    unfolding a using vi by auto
  have e: "edge_post c \<sigma> ?\<sigma>' e" if "e \<in> set new" for e
  proof -
    from q(7) that have "edge_post c \<sigma>1 \<sigma>2 e" by blast
    then show ?thesis
      unfolding edge_post_def f by auto
  qed
  have "step_post c \<sigma> ?\<sigma>' new"
    unfolding step_post_def
    using q e assms(1,2) nb by (auto simp: f finished_order_set_add set_delete_def)
  with g show "dfs_post c \<sigma> ?\<sigma>' new"
    by (simp add: dfs_post_def)
qed

lemma rc_dfs_correct:
  "c \<notin> set (recursionStack \<sigma>) \<Longrightarrow> c \<notin> set (visited \<sigma>) \<Longrightarrow>
   set (visited \<sigma>) \<inter> set (recursionStack \<sigma>) = {} \<Longrightarrow> finished_order (safeGraph_st \<sigma>) (visited \<sigma>) \<Longrightarrow>
   \<exists>new. dfs_post c \<sigma> (rc_dfs_own c \<sigma>) new"
  "loop_pre c i \<sigma> \<Longrightarrow> \<exists>new. loop_post c i \<sigma> (rc_loop_own c i \<sigma>) new"
proof (induction c \<sigma> and c i \<sigma> rule: rc_dfs_own_rc_loop_own.induct)
  case (1 c \<sigma>)
  let ?\<sigma>1 = "\<sigma>\<lparr>recursionStack := set_add (recursionStack \<sigma>) c, pathStack := pathStack \<sigma> @ [c]\<rparr>"
  let ?i0 = "int (length (neighbors_of (safeGraph_st \<sigma>) c)) - 1"
  note en = dfs_enter[OF 1(2-5)]
  from 1(1)[OF refl] en(1) obtain new where "loop_post c ?i0 ?\<sigma>1 (rc_loop_own c ?i0 ?\<sigma>1) new"
    by auto
  from en(2)[OF this] show ?case
    by (auto simp: rc_dfs_own.simps Let_def)
next
  case (2 c i \<sigma>)
  show ?case
  proof (cases "i \<ge> 0")
    case False
    with 2(5) have "i = - 1" by (simp add: loop_pre_def)
    with loop_nil[of c \<sigma>] 2(5) show ?thesis
      by (auto simp: rc_loop_own.simps)
  next
    case True
    let ?t = "string_at (neighbors_of (safeGraph_st \<sigma>) c) i"
    consider (isback) "set_has (recursionStack \<sigma>) ?t"
      | (isfresh) "\<not> set_has (recursionStack \<sigma>) ?t" "\<not> set_has (visited \<sigma>) ?t"
      | (isold) "\<not> set_has (recursionStack \<sigma>) ?t" "set_has (visited \<sigma>) ?t" by blast
    then show ?thesis
    proof cases
      case isback
      let ?\<sigma>a = "\<sigma>\<lparr>safeGraph_st := splice_at (safeGraph_st \<sigma>) c i,
                      removedEdges_st := removedEdges_st \<sigma> @ [\<lparr>source = c, target = ?t\<rparr>]\<rparr>"
      from isback have tb: "?t \<in> set (recursionStack \<sigma>)" by (simp add: set_has_def)
      note lb = loop_back[OF 2(5) True tb]
      from 2(1)[OF True refl isback lb(1)] obtain new where
        "loop_post c (i - 1) ?\<sigma>a (rc_loop_own c (i - 1) ?\<sigma>a) new" by blast
      from lb(2)[OF this] True isback show ?thesis
        by (subst rc_loop_own.simps) (auto simp: Let_def)
    next
      case isfresh
      from isfresh have tf: "?t \<notin> set (recursionStack \<sigma>)" "?t \<notin> set (visited \<sigma>)"
        by (simp_all add: set_has_def)
      from 2(5) have pre: "set (visited \<sigma>) \<inter> set (recursionStack \<sigma>) = {}"
        "finished_order (safeGraph_st \<sigma>) (visited \<sigma>)" by (simp_all add: loop_pre_def)
      from 2(2)[OF True refl isfresh tf pre] obtain newb where d: "dfs_post ?t \<sigma> (rc_dfs_own ?t \<sigma>) newb"
        by blast
      note lf = loop_fresh[OF 2(5) True tf d]
      from 2(3)[OF True refl isfresh lf(1)] obtain newq where
        "loop_post c (i - 1) (rc_dfs_own ?t \<sigma>) (rc_loop_own c (i - 1) (rc_dfs_own ?t \<sigma>)) newq" by blast
      from lf(2)[OF this] True isfresh show ?thesis
        by (subst rc_loop_own.simps) (auto simp: Let_def)
    next
      case isold
      from isold have tv: "?t \<notin> set (recursionStack \<sigma>)" "?t \<in> set (visited \<sigma>)"
        by (simp_all add: set_has_def)
      note lo = loop_old[OF 2(5) True tv]
      from isold have nn: "\<not> \<not> set_has (visited \<sigma>) ?t" by simp
      from 2(4)[OF True refl isold(1) nn lo(1)] obtain new where
        "loop_post c (i - 1) \<sigma> (rc_loop_own c (i - 1) \<sigma>) new" by blast
      from lo(2)[OF this] True isold show ?thesis
        by (subst rc_loop_own.simps) (auto simp: Let_def)
    qed
  qed
qed

lemma removeCycles_alt:
  "removeCycles_own g s =
     (if fmlookup g s = None then \<lparr>safeGraph = g, removedEdges = []\<rparr>
      else \<lparr>safeGraph = safeGraph_st (rc_dfs_own s (rc_init g)),
            removedEdges = removedEdges_st (rc_dfs_own s (rc_init g))\<rparr>)"
  by (simp add: removeCycles_own_def rc_init_def Let_def)

lemma rc_dfs_top:
  obtains new where
    "removedEdges_st (rc_dfs_own s (rc_init g)) = new"
    "safeGraph_st (rc_dfs_own s (rc_init g)) = prune new g"
    "finished_order (prune new g) (visited (rc_dfs_own s (rc_init g)))"
    "s \<in> set (visited (rc_dfs_own s (rc_init g)))"
    "\<forall>e \<in> set new. target e \<in> set (neighbors_of g (source e))
        \<and> (s, source e) \<in> (edges g)\<^sup>* \<and> (target e, source e) \<in> (edges g)\<^sup>*
        \<and> target e \<in> set (visited (rc_dfs_own s (rc_init g)))"
proof -
  have "\<exists>new. dfs_post s (rc_init g) (rc_dfs_own s (rc_init g)) new"
    by (rule rc_dfs_correct(1)) (simp_all add: rc_init_def)
  then obtain new where d: "dfs_post s (rc_init g) (rc_dfs_own s (rc_init g)) new" ..
  let ?\<sigma> = "rc_dfs_own s (rc_init g)"
  have i: "recursionStack (rc_init g) = []" "visited (rc_init g) = []"
    "safeGraph_st (rc_init g) = g" "removedEdges_st (rc_init g) = []"
    by (simp_all add: rc_init_def)
  from d have a: "removedEdges_st ?\<sigma> = new" "safeGraph_st ?\<sigma> = prune new g"
    "finished_order (safeGraph_st ?\<sigma>) (visited ?\<sigma>)" "s \<in> set (visited ?\<sigma>)"
    "\<forall>e \<in> set new. edge_post s (rc_init g) ?\<sigma> e"
    unfolding dfs_post_def step_post_def i append_Nil by blast+
  from a(3) have fo: "finished_order (prune new g) (visited ?\<sigma>)"
    unfolding a(2) .
  from a(5) have "\<forall>e \<in> set new. target e \<in> set (neighbors_of g (source e))
        \<and> (s, source e) \<in> (edges g)\<^sup>* \<and> (target e, source e) \<in> (edges g)\<^sup>*
        \<and> target e \<in> set (visited ?\<sigma>)"
    unfolding edge_post_def i by simp
  with a(1,2,4) fo show thesis
    by (intro that[of new]) simp_all
qed

lemma removeCycles_facts:
  fixes g s
  defines "r \<equiv> removeCycles_own g s"
  shows "safeGraph r = prune (removedEdges r) g"
    and "\<forall>e \<in> set (removedEdges r). (source e, target e) \<in> edges g
          \<and> (s, source e) \<in> (edges g)\<^sup>* \<and> (target e, source e) \<in> (edges g)\<^sup>*"
    and "\<forall>v. (s, v) \<in> (edges g)\<^sup>* \<longrightarrow> (v, v) \<notin> (edges (safeGraph r))\<^sup>+"
proof -
  have "safeGraph r = prune (removedEdges r) g
    \<and> (\<forall>e \<in> set (removedEdges r). (source e, target e) \<in> edges g
          \<and> (s, source e) \<in> (edges g)\<^sup>* \<and> (target e, source e) \<in> (edges g)\<^sup>*)
    \<and> (\<forall>v. (s, v) \<in> (edges g)\<^sup>* \<longrightarrow> (v, v) \<notin> (edges (safeGraph r))\<^sup>+)"
  proof (cases "fmlookup g s = None")
    case True
    then have r: "r = \<lparr>safeGraph = g, removedEdges = []\<rparr>"
      by (simp add: r_def removeCycles_alt)
    from True have nb: "neighbors_of g s = []" by (simp add: neighbors_of_def)
    have only: "v = s" if "(s, v) \<in> (edges g)\<^sup>*" for v
      using that nb by (induction rule: rtrancl_induct) (auto simp: edges_def)
    have "(s, s) \<notin> (edges g)\<^sup>+"
      using nb by (auto simp: edges_def dest: tranclD)
    with only show ?thesis by (auto simp: r)
  next
    case False
    obtain new where n: "removedEdges_st (rc_dfs_own s (rc_init g)) = new"
      "safeGraph_st (rc_dfs_own s (rc_init g)) = prune new g"
      "finished_order (prune new g) (visited (rc_dfs_own s (rc_init g)))"
      "s \<in> set (visited (rc_dfs_own s (rc_init g)))"
      "\<forall>e \<in> set new. target e \<in> set (neighbors_of g (source e))
        \<and> (s, source e) \<in> (edges g)\<^sup>* \<and> (target e, source e) \<in> (edges g)\<^sup>*
        \<and> target e \<in> set (visited (rc_dfs_own s (rc_init g)))"
      by (rule rc_dfs_top)
    let ?V = "set (visited (rc_dfs_own s (rc_init g)))"
    from False obtain ns0 where "fmlookup g s = Some ns0" by auto
    with n have r: "safeGraph r = prune new g" "removedEdges r = new"
      by (simp_all add: r_def removeCycles_alt)
    have step: "w \<in> ?V" if "v \<in> ?V" "(v, w) \<in> edges g" for v w
    proof (cases "\<lparr>source = v, target = w\<rparr> \<in> set new")
      case True
      with n(5) show ?thesis by fastforce
    next
      case F: False
      with that(2) have "(v, w) \<in> (edges (prune new g))\<^sup>*"
        by (auto simp: edges_def)
      from finished_order_closed[OF n(3) that(1) this] show ?thesis .
    qed
    have reach: "v \<in> ?V" if "(s, v) \<in> (edges g)\<^sup>*" for v
      using that by (induction rule: rtrancl_induct) (auto intro: n(4) step)
    have "(v, v) \<notin> (edges (prune new g))\<^sup>+" if "(s, v) \<in> (edges g)\<^sup>*" for v
      using finished_order_acyclic[OF n(3) reach[OF that]] .
    with n(5) r show ?thesis by (auto simp: edges_def)
  qed
  then show "safeGraph r = prune (removedEdges r) g"
    and "\<forall>e \<in> set (removedEdges r). (source e, target e) \<in> edges g
          \<and> (s, source e) \<in> (edges g)\<^sup>* \<and> (target e, source e) \<in> (edges g)\<^sup>*"
    and "\<forall>v. (s, v) \<in> (edges g)\<^sup>* \<longrightarrow> (v, v) \<notin> (edges (safeGraph r))\<^sup>+"
    by blast+
qed

lemma removeCycles_no_cycle: "\<not> cycle_reachable (safeGraph (removeCycles_own g s)) s"
proof
  assume "cycle_reachable (safeGraph (removeCycles_own g s)) s"
  then obtain v where v: "(s, v) \<in> (edges (safeGraph (removeCycles_own g s)))\<^sup>*"
    "(v, v) \<in> (edges (safeGraph (removeCycles_own g s)))\<^sup>+"
    by (auto simp: cycle_reachable_def)
  from v(1) have "(s, v) \<in> (edges g)\<^sup>*"
    unfolding removeCycles_facts(1)[where g=g and s=s] by (rule rtrancl_edges_prune)
  with removeCycles_facts(3)[where g=g and s=s] v(2) show False by blast
qed

lemma removeCycles_untouched:
  assumes "(s, v) \<notin> (edges g)\<^sup>*"
  shows "fmlookup (safeGraph (removeCycles_own g s)) v = fmlookup g v"
proof -
  have "\<lparr>source = v, target = t\<rparr> \<notin> set (removedEdges (removeCycles_own g s))" for t
    using removeCycles_facts(2)[where g=g and s=s] assms by fastforce
  then show ?thesis
    unfolding removeCycles_facts(1)[where g=g and s=s] by (cases "fmlookup g v") simp_all
qed

text \<open>
  On own properties. Whatever the graph and the start node, the graph \<open>removeCycles\<close> returns is
  the input graph without the edges listed in \<open>removedEdges\<close>. Each of these is an edge
  of the input that leaves a node reachable from the start node and ends on a node from
  which its source can be reached (a back-edge: it closes a cycle). No cycle of the
  returned graph passes through a node reachable from the start node, and the successor
  list of every node that is not reachable from it, as the set of keys, is unchanged.
\<close>

theorem removeCycles_correct:
  "safeGraph (removeCycles_own graphData startNode) = prune (removedEdges (removeCycles_own graphData startNode)) graphData
   \<and> (\<forall>e \<in> set (removedEdges (removeCycles_own graphData startNode)).
         (source e, target e) \<in> edges graphData
       \<and> (startNode, source e) \<in> (edges graphData)\<^sup>*
       \<and> (target e, source e) \<in> (edges graphData)\<^sup>*)
   \<and> (\<forall>v. (startNode, v) \<in> (edges graphData)\<^sup>* \<longrightarrow>
         (v, v) \<notin> (edges (safeGraph (removeCycles_own graphData startNode)))\<^sup>+)
   \<and> (\<forall>v. (startNode, v) \<notin> (edges graphData)\<^sup>* \<longrightarrow>
         fmlookup (safeGraph (removeCycles_own graphData startNode)) v = fmlookup graphData v)
   \<and> fmdom' (safeGraph (removeCycles_own graphData startNode)) = fmdom' graphData"
  using removeCycles_facts[where g=graphData and s=startNode]
    removeCycles_untouched[where g=graphData and s=startNode]
  by simp


text \<open>
  Claim C5, as amended. On the first test graph, from start node 1, \<open>removeCycles\<close>
  removes both back-edges that leave node 3, first the one to 1 and then the one to 2
  (the successors are examined in reverse order and every back-edge is deleted), and the
  graph it returns has no cycle reachable from node 1.
\<close>

theorem removeCycles_scenario1:
  "removedEdges (removeCycles_own scenario1 ''1'')
     = [\<lparr>source = ''3'', target = ''1''\<rparr>, \<lparr>source = ''3'', target = ''2''\<rparr>]
   \<and> safeGraph (removeCycles_own scenario1 ''1'')
     = fmap_of_list [(''1'', [''2'', ''7'']), (''2'', [''3'', ''4'']), (''3'', [])]
   \<and> \<not> cycle_reachable (safeGraph (removeCycles_own scenario1 ''1'')) ''1''"
proof -
  have "removedEdges (removeCycles_own scenario1 ''1'')
     = [\<lparr>source = ''3'', target = ''1''\<rparr>, \<lparr>source = ''3'', target = ''2''\<rparr>]"
    "safeGraph (removeCycles_own scenario1 ''1'')
     = fmap_of_list [(''1'', [''2'', ''7'']), (''2'', [''3'', ''4'']), (''3'', [])]"
    by code_simp+
  with removeCycles_no_cycle[of scenario1 "''1''"] show ?thesis by blast
qed

text \<open>
  Claim C5 as stated fails: the edges removed are neither the single edge from 3 to 2
  nor the single edge from 3 to 1.
\<close>

theorem removeCycles_scenario1_two_edges:
  "\<not> (removedEdges (removeCycles_own scenario1 ''1'') = [\<lparr>source = ''3'', target = ''2''\<rparr>]
      \<or> removedEdges (removeCycles_own scenario1 ''1'') = [\<lparr>source = ''3'', target = ''1''\<rparr>])"
  by code_simp

theorem removeCycles_correct_witness:
  "\<lparr>source = ''3'', target = ''1''\<rparr> \<in> set (removedEdges (removeCycles_own scenario1 ''1''))
   \<and> (''3'', ''1'') \<in> edges scenario1
   \<and> (''1'', ''3'') \<in> (edges scenario1)\<^sup>*
   \<and> (''1'', ''2'') \<in> (edges scenario1)\<^sup>*
   \<and> (''2'', ''2'') \<notin> (edges (safeGraph (removeCycles_own scenario1 ''1'')))\<^sup>+
   \<and> (''1'', ''9'') \<notin> (edges scenario1)\<^sup>*
   \<and> fmlookup (safeGraph (removeCycles_own scenario1 ''1'')) ''9'' = fmlookup scenario1 ''9''
   \<and> safeGraph (removeCycles_own scenario1 ''1'')
       = prune [\<lparr>source = ''3'', target = ''1''\<rparr>, \<lparr>source = ''3'', target = ''2''\<rparr>] scenario1"
proof -
  have rm: "removedEdges (removeCycles_own scenario1 ''1'')
     = [\<lparr>source = ''3'', target = ''1''\<rparr>, \<lparr>source = ''3'', target = ''2''\<rparr>]"
    by code_simp
  then have mem: "\<lparr>source = ''3'', target = ''1''\<rparr> \<in> set (removedEdges (removeCycles_own scenario1 ''1''))"
    by simp
  have e12: "(''1'', ''2'') \<in> edges scenario1"
    by (simp add: edges_def neighbors_of_def scenario1_def)
  then have r12: "(''1'', ''2'') \<in> (edges scenario1)\<^sup>*" by blast
  have cl: "\<forall>v \<in> {''1'', ''2'', ''3'', ''4'', ''7''}.
      set (neighbors_of scenario1 v) \<subseteq> {''1'', ''2'', ''3'', ''4'', ''7''}"
    by (auto simp: neighbors_of_def scenario1_def)
  have n19: "(''1'', ''9'') \<notin> (edges scenario1)\<^sup>*"
  proof
    assume "(''1'', ''9'') \<in> (edges scenario1)\<^sup>*"
    from closed_reachable[OF cl _ this] show False by simp
  qed
  note c = removeCycles_correct[of scenario1 "''1''"]
  from c mem have a: "(''3'', ''1'') \<in> edges scenario1" "(''1'', ''3'') \<in> (edges scenario1)\<^sup>*"
    by fastforce+
  from c r12 have b: "(''2'', ''2'') \<notin> (edges (safeGraph (removeCycles_own scenario1 ''1'')))\<^sup>+"
    by blast
  from c n19 have d: "fmlookup (safeGraph (removeCycles_own scenario1 ''1'')) ''9'' = fmlookup scenario1 ''9''"
    by blast
  from c rm have p: "safeGraph (removeCycles_own scenario1 ''1'')
       = prune [\<lparr>source = ''3'', target = ''1''\<rparr>, \<lparr>source = ''3'', target = ''2''\<rparr>] scenario1"
    by simp
  from mem a r12 b n19 d p show ?thesis by blast
qed

section \<open>removeCycles and the caller's graph\<close>





lemma is_object_append: "is_object h a \<Longrightarrow> is_object (h @ xs) a"
  by (simp add: is_object_def nth_append)


















subsection \<open>The run on the store simulates the run on values\<close>




subsection \<open>The copy\<close>




subsection \<open>A larger bound gives the same result\<close>


subsection \<open>The caller's cells\<close>





section \<open>Reads that reach the prototype\<close>

text \<open>
  The hook reads the graph with \<^verbatim>\<open>graphData[k]\<close>, and for a name that is not a key the
  read is answered by \<^verbatim>\<open>Object.prototype\<close>. The guard of the start node and the
  \<^verbatim>\<open>|| []\<close> of \<^verbatim>\<open>dfs\<close> were written for \<^verbatim>\<open>undefined\<close> and meet a function there.
\<close>

text \<open>
  Claim C1. The code breaks it: in the graph \<^verbatim>\<open>{"1": ["constructor", "1"]}\<close>, start node
  1 is a key and lies on the cycle from 1 to 1, but \<^verbatim>\<open>runDetection\<close> does not report it.
  The successor \<^verbatim>\<open>constructor\<close> comes first and has no entry, the read gives the function
  \<^verbatim>\<open>Object\<close>, and \<^verbatim>\<open>for (const neighbor of neighbors)\<close> over a function throws a \<^verbatim>\<open>TypeError\<close>.
\<close>

theorem runDetection_throws_before_cycle:
  "''1'' \<in> fmdom' self_loop_after_constructor
   \<and> cycle_reachable self_loop_after_constructor ''1''
   \<and> runDetection self_loop_after_constructor ''1'' = TypeError"
proof -
  have "(''1'', ''1'') \<in> edges self_loop_after_constructor"
    by (simp add: edges_def neighbors_of_def self_loop_after_constructor_def)
  then have "cycle_reachable self_loop_after_constructor ''1''"
    unfolding cycle_reachable_def by blast
  moreover have "''1'' \<in> fmdom' self_loop_after_constructor"
    by (simp add: self_loop_after_constructor_def)
  moreover have "runDetection self_loop_after_constructor ''1'' = TypeError"
    by code_simp
  ultimately show ?thesis by simp
qed

text \<open>
  Claim C7. The code breaks it: \<^verbatim>\<open>constructor\<close> is not a key of the first test graph, yet
  the guard \<^verbatim>\<open>!graphData[startNode]\<close> lets it pass, since the read gives the function
  \<^verbatim>\<open>Object\<close>, and the traversal throws a \<^verbatim>\<open>TypeError\<close> where the claim promises the
  error result.
\<close>

theorem runDetection_throws_on_inherited_start:
  "fmlookup scenario1 ''constructor'' = None
   \<and> runDetection scenario1 ''constructor'' = TypeError"
  by code_simp

text \<open>
  Claim C10. The code breaks it in the same way: for the start node \<^verbatim>\<open>constructor\<close>,
  which is not a key, both instrumented detectors record \<^verbatim>\<open>START\<close>, pass the guard and throw
  a \<^verbatim>\<open>TypeError\<close>, so that the caller gets neither the error result nor the trace.
\<close>

theorem runDetectionWithSteps_throws_on_inherited_start:
  "fmlookup scenario1 ''constructor'' = None
   \<and> runDetectionWithSteps scenario1 ''constructor'' = TypeError
   \<and> runDetectionWithSteps_skip scenario1 ''constructor'' = TypeError"
  by code_simp

text \<open>
  Claim C4. The code breaks it: in the graph \<^verbatim>\<open>{"1": ["1", "toString"]}\<close>, from the key
  1, the skip-and-continue detector skips the back-edge from 1 to 1 and then throws a
  \<^verbatim>\<open>TypeError\<close> on the successor \<^verbatim>\<open>toString\<close>; no \<^verbatim>\<open>COMPLETE\<close> record is written and
  nothing is returned.
\<close>

theorem skip_and_continue_throws:
  "''1'' \<in> fmdom' self_loop_before_toString
   \<and> runDetectionWithSteps_skip self_loop_before_toString ''1'' = TypeError"
proof -
  have "''1'' \<in> fmdom' self_loop_before_toString"
    by (simp add: self_loop_before_toString_def)
  moreover have "runDetectionWithSteps_skip self_loop_before_toString ''1'' = TypeError"
    by code_simp
  ultimately show ?thesis by simp
qed

text \<open>
  Claim C2. The code breaks it: in the graph \<^verbatim>\<open>{"1": ["constructor"], "undefined": ["1"]}\<close>
  nothing is reachable from 1 but \<^verbatim>\<open>constructor\<close>, which has no entry. \<^verbatim>\<open>removeCycles\<close>
  takes the function \<^verbatim>\<open>Object\<close> for its successor array, finds \<^verbatim>\<open>length\<close> 1 and the
  element \<^verbatim>\<open>"undefined"\<close>, goes on to the node of that name and deletes its edge to 1: an
  edge of a node that is not reachable from the start node.
\<close>

theorem removeCycles_edits_unreachable_node:
  "(''1'', ''undefined'') \<notin> (edges cycle_through_constructor)\<^sup>*
   \<and> removeCycles cycle_through_constructor ''1''
       = Return \<lparr>safeGraph = fmap_of_list [(''1'', [''constructor'']), (''undefined'', [])],
                 removedEdges = [\<lparr>source = ''undefined'', target = ''1''\<rparr>]\<rparr>"
proof -
  have cl: "\<forall>v \<in> {''1'', ''constructor''}.
      set (neighbors_of cycle_through_constructor v) \<subseteq> {''1'', ''constructor''}"
    by (auto simp: neighbors_of_def cycle_through_constructor_def)
  have "(''1'', ''undefined'') \<notin> (edges cycle_through_constructor)\<^sup>*"
  proof
    assume "(''1'', ''undefined'') \<in> (edges cycle_through_constructor)\<^sup>*"
    from closed_reachable[OF cl _ this] show False by simp
  qed
  moreover have "removeCycles cycle_through_constructor ''1''
       = Return \<lparr>safeGraph = fmap_of_list [(''1'', [''constructor'']), (''undefined'', [])],
                 removedEdges = [\<lparr>source = ''undefined'', target = ''1''\<rparr>]\<rparr>"
    by code_simp
  ultimately show ?thesis by simp
qed

text \<open>
  Claim C3. The code breaks it: on the first test graph the instrumented detector returns
  the edge from 3 to 2 as \<^verbatim>\<open>cycleEdge\<close>, and \<^verbatim>\<open>runDetection\<close> returns no \<^verbatim>\<open>cycleEdge\<close> at
  all, because its \<^verbatim>\<open>dfs\<close> does not compute one.
\<close>

theorem cycleEdge_differs:
  "map_completion cycleEdge (runDetectionWithSteps scenario1 ''1'')
     = Return (Some \<lparr>source = Some ''3'', target = ''2''\<rparr>)
   \<and> map_completion cycleEdge (runDetection scenario1 ''1'') = Return None"
  by code_simp

end
